theory Spec2Isabelle
  imports Complex_Main "HOL-Library.Multiset"
begin

section \<open>Data model\<close>

text \<open>
  The three view components (ActivitiesPage.tsx, EnhancedActivitiesPage.tsx,
  GanttChart.tsx) each declare their own \<^verbatim>\<open>Activity\<close> and \<^verbatim>\<open>WBSItem\<close> interfaces
  for the same JSON objects; the records below hold the union of the fields the
  tree-building, rollup and bar-layout code reads.

  Conventions of the embedding:
  \<^item> a JavaScript number is a \<^typ>\<open>real\<close> and the arithmetic is exact, except in the
    section on double arithmetic, which repeats the computation of the average progress
    with every number and every operation rounded as the code rounds it; a numeric field
    guarded in the source by \<^verbatim>\<open>x || 0\<close> is a \<^typ>\<open>real option\<close>, \<open>None\<close> standing for a
    missing (null/undefined) value;
  \<^item> a date field (\<^verbatim>\<open>string | null\<close>) is an \<^typ>\<open>int option\<close>: \<open>None\<close> is \<^verbatim>\<open>null\<close> (or
    the empty string, which is falsy too), \<open>Some t\<close> a date string that parses to the time
    stamp \<open>t\<close> in milliseconds; a \<^verbatim>\<open>Date\<close> object is the time stamp it holds;
  \<^item> a string is falsy exactly when it is empty;
  \<^item> a recursive function takes the depth of recursion it may use as its first argument and
    returns \<open>None\<close> when that depth does not suffice: a call that returns for no depth
    is a call that never returns (the engine ends it with a stack overflow).
\<close>

record Activity =
  task_id :: string
  task_name :: string
  activity_code :: string
  act_wbs_id :: string            \<comment> \<open>\<^verbatim>\<open>Activity.wbs_id\<close>\<close>
  duration_days :: "real option"
  early_start_date :: "int option"
  early_end_date :: "int option"
  actual_start_date :: "int option"
  actual_end_date :: "int option"
  progress_pct :: "real option"
  total_float_days :: "real option"

record WBSItem =
  wbs_id :: string
  wbs_name :: string
  wbs_code :: string
  parent_wbs_id :: "string option"
  proj_node_flag :: string
  wbs_level :: int                \<comment> \<open>\<^verbatim>\<open>WBSItem.level\<close>\<close>
  sort_order :: "real option"

subsection \<open>JavaScript helpers\<close>

definition num_or0 :: "real option \<Rightarrow> real" where
  \<comment> \<open>\<^verbatim>\<open>x || 0\<close> on a number\<close>
  "num_or0 x = (case x of None \<Rightarrow> 0 | Some v \<Rightarrow> v)"

definition getTime :: "int option \<Rightarrow> int" where
  \<comment> \<open>\<^verbatim>\<open>new Date(d).getTime()\<close>; \<^verbatim>\<open>new Date(null)\<close> is the epoch\<close>
  "getTime d = (case d of None \<Rightarrow> 0 | Some t \<Rightarrow> t)"

definition truthy_date :: "int option \<Rightarrow> bool" where
  "truthy_date d = (d \<noteq> None)"

fun Math_min :: "'a::linorder list \<Rightarrow> 'a option" where
  \<comment> \<open>\<^verbatim>\<open>Math.min(...xs)\<close>; \<open>None\<close> stands for the \<^verbatim>\<open>Infinity\<close> of an empty argument list\<close>
  "Math_min [] = None"
| "Math_min (x # xs) = Some (fold min xs x)"

fun Math_max :: "'a::linorder list \<Rightarrow> 'a option" where
  "Math_max [] = None"
| "Math_max (x # xs) = Some (fold max xs x)"

definition Math_round :: "real \<Rightarrow> real" where
  \<comment> \<open>\<^verbatim>\<open>Math.round\<close>: the nearest integer, halves rounded up\<close>
  "Math_round x = of_int \<lfloor>x + 1 / 2\<rfloor>"

definition has_both_dates :: "Activity \<Rightarrow> bool" where
  \<comment> \<open>the filter \<^verbatim>\<open>a => a.early_start_date && a.early_end_date\<close>\<close>
  "has_both_dates a = (truthy_date (early_start_date a) \<and> truthy_date (early_end_date a))"

section \<open>Rollup calculator\<close>

subsection \<open>ActivitiesPage.tsx: calculateWBSStats\<close>

record WBSStats =
  totalDuration :: real
  avgProgress :: real
  minFloat :: real
  startDate :: "int option"
  endDate :: "int option"

definition calculateWBSStats :: "Activity list \<Rightarrow> WBSStats" where
  "calculateWBSStats allDescendantActivities =
    (if length allDescendantActivities = 0 then
       \<lparr>totalDuration = 0, avgProgress = 0, minFloat = 0, startDate = None, endDate = None\<rparr>
     else
       let validActivities = filter has_both_dates allDescendantActivities;
           startDate = (if length validActivities > 0
                        then Math_min (map (\<lambda>a. getTime (early_start_date a)) validActivities)
                        else None);
           endDate = (if length validActivities > 0
                      then Math_max (map (\<lambda>a. getTime (early_end_date a)) validActivities)
                      else None);
           totalDuration = foldl (\<lambda>sum a. sum + num_or0 (duration_days a)) 0 allDescendantActivities;
           avgProgress = (if length allDescendantActivities > 0
                          then foldl (\<lambda>sum a. sum + num_or0 (progress_pct a)) 0 allDescendantActivities
                               / real (length allDescendantActivities)
                          else 0);
           minFloat = (if length allDescendantActivities > 0
                       then (case Math_min (map (\<lambda>a. num_or0 (total_float_days a)) allDescendantActivities)
                             of Some m \<Rightarrow> m | None \<Rightarrow> 0)
                       else 0)
       in \<lparr>totalDuration = totalDuration, avgProgress = avgProgress, minFloat = minFloat,
           startDate = startDate, endDate = endDate\<rparr>)"

subsection \<open>EnhancedActivitiesPage.tsx: calculateWBSRollups\<close>

record WBSRollup =
  r_progress_pct :: real
  r_early_start_date :: "int option"
  r_early_end_date :: "int option"
  r_duration_days :: real
  r_total_float_days :: real

definition rollup_totalDuration :: "Activity list \<Rightarrow> real" where
  \<comment> \<open>the local \<^verbatim>\<open>totalDuration\<close> of calculateWBSRollups\<close>
  "rollup_totalDuration descendantActivities =
     foldl (\<lambda>sum a. sum + num_or0 (duration_days a)) 0 descendantActivities"

definition rollup_avgProgress :: "Activity list \<Rightarrow> real" where
  \<comment> \<open>the local \<^verbatim>\<open>avgProgress\<close> of calculateWBSRollups, before rounding\<close>
  "rollup_avgProgress descendantActivities =
     (if rollup_totalDuration descendantActivities > 0
      then foldl (\<lambda>sum a. sum + num_or0 (progress_pct a) * num_or0 (duration_days a)) 0
             descendantActivities
           / rollup_totalDuration descendantActivities
      else 0)"

definition calculateWBSRollups :: "Activity list \<Rightarrow> WBSRollup" where
  "calculateWBSRollups descendantActivities =
    (if length descendantActivities = 0 then
       \<lparr>r_progress_pct = 0, r_early_start_date = None, r_early_end_date = None,
        r_duration_days = 0, r_total_float_days = 0\<rparr>
     else
       let validActivities = filter has_both_dates descendantActivities;
           startDate = (if length validActivities > 0
                        then Math_min (map (\<lambda>a. getTime (early_start_date a)) validActivities)
                        else None);
           endDate = (if length validActivities > 0
                      then Math_max (map (\<lambda>a. getTime (early_end_date a)) validActivities)
                      else None);
           totalDuration = rollup_totalDuration descendantActivities;
           avgProgress = rollup_avgProgress descendantActivities;
           minFloat = (if length descendantActivities > 0
                       then (case Math_min (map (\<lambda>a. num_or0 (total_float_days a)) descendantActivities)
                             of Some m \<Rightarrow> m | None \<Rightarrow> 0)
                       else 0)
       in \<lparr>r_progress_pct = Math_round avgProgress, r_early_start_date = startDate,
           r_early_end_date = endDate, r_duration_days = totalDuration,
           r_total_float_days = minFloat\<rparr>)"

subsection \<open>GanttChart.tsx: the WBS summary block of buildWBSNodes\<close>

record GanttSummary =
  wbsStart :: "int option"
  wbsEnd :: "int option"
  g_totalDuration :: real
  weightedProgress :: real

definition gantt_summary :: "Activity list \<Rightarrow> GanttSummary" where
  \<comment> \<open>the four \<^verbatim>\<open>let\<close> variables after the nested \<^verbatim>\<open>if\<close> blocks\<close>
  "gantt_summary wbsActivities =
    (let init = \<lparr>wbsStart = None, wbsEnd = None, g_totalDuration = 0, weightedProgress = 0\<rparr>
     in if length wbsActivities > 0 then
          let validActivities = filter has_both_dates wbsActivities
          in if length validActivities > 0 then
               let startDates = map (\<lambda>a. getTime (early_start_date a)) validActivities;
                   endDates = map (\<lambda>a. getTime (early_end_date a)) validActivities;
                   totalDuration = foldl (\<lambda>sum a. sum + num_or0 (duration_days a)) 0 wbsActivities
               in \<lparr>wbsStart = Math_min startDates, wbsEnd = Math_max endDates,
                   g_totalDuration = totalDuration,
                   weightedProgress =
                     (if totalDuration > 0
                      then foldl (\<lambda>sum a. sum + num_or0 (progress_pct a) * num_or0 (duration_days a)) 0
                             wbsActivities / totalDuration
                      else 0)\<rparr>
             else init
        else init)"

section \<open>Timeline and bar layout (GanttChart.tsx)\<close>

datatype jsnum = Fin real | NegZero | PosInf | NegInf | NaN
  \<comment> \<open>a JavaScript number where a division by zero can occur: a finite value, the
      negative zero, the infinities and NaN\<close>

definition js_div :: "real \<Rightarrow> jsnum \<Rightarrow> jsnum" where
  \<comment> \<open>\<^verbatim>\<open>x / y\<close> for a finite \<open>x\<close>\<close>
  "js_div x y =
     (case y of
        Fin d \<Rightarrow> if d \<noteq> 0 then Fin (x / d)
                 else if x > 0 then PosInf else if x < 0 then NegInf else NaN
      | NegZero \<Rightarrow> if x > 0 then NegInf else if x < 0 then PosInf else NaN
      | PosInf \<Rightarrow> Fin 0
      | NegInf \<Rightarrow> Fin 0
      | NaN \<Rightarrow> NaN)"

definition js_times :: "jsnum \<Rightarrow> real \<Rightarrow> jsnum" where
  \<comment> \<open>\<^verbatim>\<open>x * c\<close> for a positive constant \<open>c\<close>\<close>
  "js_times x c = (case x of Fin v \<Rightarrow> Fin (v * c) | other \<Rightarrow> other)"

definition js_max :: "jsnum \<Rightarrow> real \<Rightarrow> jsnum" where
  \<comment> \<open>\<^verbatim>\<open>Math.max(x, c)\<close> for a positive constant \<open>c\<close>\<close>
  "js_max x c =
     (case x of Fin v \<Rightarrow> Fin (max v c) | NegZero \<Rightarrow> Fin c | PosInf \<Rightarrow> PosInf
      | NegInf \<Rightarrow> Fin c | NaN \<Rightarrow> NaN)"

definition js_ceil :: "real \<Rightarrow> jsnum" where
  \<comment> \<open>\<^verbatim>\<open>Math.ceil\<close>: a value strictly between -1 and 0 gives the negative zero\<close>
  "js_ceil x = (if - 1 < x \<and> x < 0 then NegZero else Fin (of_int \<lceil>x\<rceil>))"

datatype jsdate = DateAt int | InvalidDate
  \<comment> \<open>a \<^verbatim>\<open>Date\<close> object: the time stamp it holds, or the Invalid Date that
      \<^verbatim>\<open>new Date(s)\<close> gives for a string \<open>s\<close> that does not parse; either is truthy\<close>

record Timeline =
  tl_start :: jsdate
  tl_end :: jsdate
  projectStart :: jsdate
  projectEnd :: jsdate
  totalDays :: jsnum

definition day_ms :: int where
  "day_ms = 24 * 60 * 60 * 1000"

definition js_Date :: "int \<Rightarrow> jsdate" where
  \<comment> \<open>\<^verbatim>\<open>new Date(t)\<close> for a number \<open>t\<close>: a time value more than 8.64e15 ms from the epoch
      is outside the range of \<^verbatim>\<open>Date\<close> and gives an Invalid Date\<close>
  "js_Date t = (if \<bar>t\<bar> \<le> 8640000000000000 then DateAt t else InvalidDate)"

definition date_plus :: "jsdate \<Rightarrow> int \<Rightarrow> jsdate" where
  \<comment> \<open>\<^verbatim>\<open>new Date(d.getTime() + ms)\<close>\<close>
  "date_plus d ms = (case d of DateAt t \<Rightarrow> js_Date (t + ms) | InvalidDate \<Rightarrow> InvalidDate)"

definition days_between :: "jsdate \<Rightarrow> jsdate \<Rightarrow> real option" where
  \<comment> \<open>\<^verbatim>\<open>(a.getTime() - b.getTime()) / (24 * 60 * 60 * 1000)\<close>; \<open>None\<close> stands for the NaN
      that the time stamp of an Invalid Date gives\<close>
  "days_between a b =
     (case (a, b) of
        (DateAt x, DateAt y) \<Rightarrow> Some (real_of_int (x - y) / real_of_int day_ms)
      | _ \<Rightarrow> None)"

definition projectTimeline :: "Activity list \<Rightarrow> Timeline option" where
  "projectTimeline activities =
    (if length activities = 0 then None
     else let validActivities = filter has_both_dates activities
          in if length validActivities = 0 then None
             else
               (case (Math_min (map (\<lambda>a. getTime (early_start_date a)) validActivities),
                      Math_max (map (\<lambda>a. getTime (early_end_date a)) validActivities)) of
                  (Some pStart, Some pEnd) \<Rightarrow>
                    let projectStart = js_Date pStart;
                        projectEnd = js_Date pEnd;
                        padDays = 30;
                        timelineStart = date_plus projectStart (- (padDays * 24 * 60 * 60 * 1000));
                        timelineEnd = date_plus projectEnd (padDays * 24 * 60 * 60 * 1000)
                    in Some \<lparr>tl_start = timelineStart, tl_end = timelineEnd,
                             projectStart = projectStart, projectEnd = projectEnd,
                             totalDays = (case days_between timelineEnd timelineStart of
                                            None \<Rightarrow> NaN
                                          | Some x \<Rightarrow> js_ceil x)\<rparr>
                | _ \<Rightarrow> None))"

datatype BarStyle = DisplayNone | Bar (bar_left: jsnum) (bar_width: jsnum)

datatype BarType = Planned | Actual

definition calculateBarStyle ::
  "Timeline option \<Rightarrow> jsdate option \<Rightarrow> jsdate option \<Rightarrow> jsdate option \<Rightarrow> jsdate option
     \<Rightarrow> BarType \<Rightarrow> BarStyle"
where
  \<comment> \<open>arguments: projectTimeline, then the node's planned\_start, planned\_end,
      actual\_start, actual\_end (\<open>None\<close> is \<^verbatim>\<open>null\<close>), then barType; colour and opacity are
      not modelled. The guard \<^verbatim>\<open>!startDate || !endDate\<close> tests for \<^verbatim>\<open>null\<close> only: an Invalid
      Date passes it, and every number computed from its time stamp is NaN\<close>
  "calculateBarStyle timeline p_start p_end a_start a_end barType =
    (case timeline of
       None \<Rightarrow> DisplayNone
     | Some tline \<Rightarrow>
        let startDate = (if barType = Planned then p_start else a_start);
            endDate = (if barType = Planned then p_end else a_end)
        in (case (startDate, endDate) of
              (Some s, Some e) \<Rightarrow>
                let startOffset = days_between s (tl_start tline);
                    duration = days_between e s;
                    leftPercent =
                      (case startOffset of
                         None \<Rightarrow> NaN
                       | Some x \<Rightarrow> js_times (js_div x (totalDays tline)) 100);
                    widthPercent =
                      (case duration of
                         None \<Rightarrow> NaN
                       | Some x \<Rightarrow> js_max (js_times (js_div x (totalDays tline)) 100) (1 / 2))
                in Bar leftPercent widthPercent
            | _ \<Rightarrow> DisplayNone))"

section \<open>The average progress in double arithmetic\<close>

text \<open>
  The rollups above compute in exact arithmetic. This section repeats the two computations
  of \<^verbatim>\<open>avgProgress\<close>, and the rounded value that the WBS node stores, in the arithmetic the
  code runs in: every number is an IEEE 754 double, every sum, product and quotient is
  rounded to the nearest double (ties to even), a result of magnitude \<open>2 ^ 1024\<close> or more is
  an infinity, and an undefined result is NaN.
\<close>

definition round_even :: "real \<Rightarrow> int" where
  \<comment> \<open>the integer nearest to \<open>y\<close>, a tie going to the even one\<close>
  "round_even y =
     (let f = \<lfloor>y\<rfloor>
      in if y - of_int f < 1 / 2 then f
         else if 1 / 2 < y - of_int f then f + 1
         else if even f then f else f + 1)"

primrec ulp_exp :: "nat \<Rightarrow> real \<Rightarrow> nat" where
  \<comment> \<open>\<open>y\<close> is a magnitude in units of \<open>2 ^ - 1074\<close>, the smallest positive double; the result
      \<open>k\<close> gives the spacing \<open>2 ^ k\<close> of the doubles around \<open>y\<close>: \<open>0\<close> below \<open>2 ^ 53\<close> (the
      subnormal numbers and the first binade), otherwise the greatest \<open>k\<close>, at most the first
      argument, with \<open>2 ^ (k + 52) \<le> y\<close>\<close>
  "ulp_exp 0 y = 0"
| "ulp_exp (Suc n) y = (if 2 ^ (Suc n + 52) \<le> y then Suc n else ulp_exp n y)"

definition round_units :: "real \<Rightarrow> real" where
  \<comment> \<open>round-to-nearest, ties-to-even, of a magnitude in units of \<open>2 ^ - 1074\<close>, with 53
      significant bits and no upper limit on the exponent\<close>
  "round_units y = (let k = ulp_exp 2045 y in of_int (round_even (y / 2 ^ k)) * 2 ^ k)"

definition to_double :: "real \<Rightarrow> jsnum" where
  \<comment> \<open>the Number value for the real \<open>x\<close>: the nearest double, an infinity from \<open>2 ^ 1024\<close>
      (\<open>2 ^ 2098\<close> units) on, a zero with the sign of \<open>x\<close> when the magnitude rounds to 0\<close>
  "to_double x =
     (let r = round_units (\<bar>x\<bar> * 2 ^ 1074)
      in if 2 ^ 2098 \<le> r then (if x < 0 then NegInf else PosInf)
         else if r = 0 then (if x < 0 then NegZero else Fin 0)
         else Fin (sgn x * r / 2 ^ 1074))"

definition is_neg :: "jsnum \<Rightarrow> bool" where
  \<comment> \<open>the sign bit\<close>
  "is_neg a = (case a of Fin x \<Rightarrow> x < 0 | NegZero \<Rightarrow> True | NegInf \<Rightarrow> True | _ \<Rightarrow> False)"

definition is_zero :: "jsnum \<Rightarrow> bool" where
  "is_zero a = (a = Fin 0 \<or> a = NegZero)"

definition is_inf :: "jsnum \<Rightarrow> bool" where
  "is_inf a = (a = PosInf \<or> a = NegInf)"

definition fin_val :: "jsnum \<Rightarrow> real" where
  "fin_val a = (case a of Fin x \<Rightarrow> x | _ \<Rightarrow> 0)"

definition fp_signed :: "bool \<Rightarrow> jsnum \<Rightarrow> jsnum" where
  \<comment> \<open>\<open>r\<close>, negated when \<open>s\<close> holds\<close>
  "fp_signed s r =
     (if s then (case r of Fin x \<Rightarrow> if x = 0 then NegZero else Fin (- x)
                 | NegZero \<Rightarrow> Fin 0 | PosInf \<Rightarrow> NegInf | NegInf \<Rightarrow> PosInf | NaN \<Rightarrow> NaN)
      else r)"

definition fp_add :: "jsnum \<Rightarrow> jsnum \<Rightarrow> jsnum" where
  \<comment> \<open>\<^verbatim>\<open>a + b\<close> on doubles\<close>
  "fp_add a b =
     (if a = NaN \<or> b = NaN then NaN
      else if a = PosInf then (if b = NegInf then NaN else PosInf)
      else if a = NegInf then (if b = PosInf then NaN else NegInf)
      else if is_inf b then b
      else if a = NegZero \<and> b = NegZero then NegZero
      else if fin_val a + fin_val b = 0 then Fin 0
      else to_double (fin_val a + fin_val b))"

definition fp_mul :: "jsnum \<Rightarrow> jsnum \<Rightarrow> jsnum" where
  \<comment> \<open>\<^verbatim>\<open>a * b\<close> on doubles\<close>
  "fp_mul a b =
     (if a = NaN \<or> b = NaN then NaN
      else if is_inf a \<or> is_inf b
        then (if is_zero a \<or> is_zero b then NaN else fp_signed (is_neg a \<noteq> is_neg b) PosInf)
      else fp_signed (is_neg a \<noteq> is_neg b) (to_double (\<bar>fin_val a\<bar> * \<bar>fin_val b\<bar>)))"

definition fp_div :: "jsnum \<Rightarrow> jsnum \<Rightarrow> jsnum" where
  \<comment> \<open>\<^verbatim>\<open>a / b\<close> on doubles\<close>
  "fp_div a b =
     (if a = NaN \<or> b = NaN then NaN
      else if is_inf a then (if is_inf b then NaN else fp_signed (is_neg a \<noteq> is_neg b) PosInf)
      else if is_inf b then fp_signed (is_neg a \<noteq> is_neg b) (Fin 0)
      else if is_zero b
        then (if is_zero a then NaN else fp_signed (is_neg a \<noteq> is_neg b) PosInf)
      else fp_signed (is_neg a \<noteq> is_neg b) (to_double (\<bar>fin_val a\<bar> / \<bar>fin_val b\<bar>)))"

definition fp_gt0 :: "jsnum \<Rightarrow> bool" where
  \<comment> \<open>\<^verbatim>\<open>a > 0\<close>\<close>
  "fp_gt0 a = (case a of Fin x \<Rightarrow> 0 < x | PosInf \<Rightarrow> True | _ \<Rightarrow> False)"

definition fp_Math_round :: "jsnum \<Rightarrow> jsnum" where
  \<comment> \<open>\<^verbatim>\<open>Math.round\<close>: the nearest integer, halves rounded up, which is a double again;
      a value from -0.5 up to the negative zero gives the negative zero\<close>
  "fp_Math_round a =
     (case a of
        Fin x \<Rightarrow> if - (1 / 2) \<le> x \<and> x < 0 then NegZero else Fin (of_int \<lfloor>x + 1 / 2\<rfloor>)
      | other \<Rightarrow> other)"

definition fp_num_or0 :: "real option \<Rightarrow> jsnum" where
  \<comment> \<open>\<^verbatim>\<open>x || 0\<close> on a numeric field: the field holds the double that \<^verbatim>\<open>JSON.parse\<close> makes
      of the literal \<open>x\<close>; both zeros are falsy\<close>
  "fp_num_or0 v =
     (case v of
        None \<Rightarrow> Fin 0
      | Some x \<Rightarrow> (case to_double x of NegZero \<Rightarrow> Fin 0 | d \<Rightarrow> d))"

definition rollup_totalDuration_double :: "Activity list \<Rightarrow> jsnum" where
  \<comment> \<open>the local \<^verbatim>\<open>totalDuration\<close> of calculateWBSRollups\<close>
  "rollup_totalDuration_double descendantActivities =
     foldl (\<lambda>sum a. fp_add sum (fp_num_or0 (duration_days a))) (Fin 0) descendantActivities"

definition rollup_weightedSum_double :: "Activity list \<Rightarrow> jsnum" where
  \<comment> \<open>the \<^verbatim>\<open>reduce\<close> in the numerator of \<^verbatim>\<open>avgProgress\<close>\<close>
  "rollup_weightedSum_double descendantActivities =
     foldl (\<lambda>sum a. fp_add sum (fp_mul (fp_num_or0 (progress_pct a))
                                       (fp_num_or0 (duration_days a))))
       (Fin 0) descendantActivities"

definition rollup_avgProgress_double :: "Activity list \<Rightarrow> jsnum" where
  \<comment> \<open>the local \<^verbatim>\<open>avgProgress\<close> of calculateWBSRollups, before rounding\<close>
  "rollup_avgProgress_double descendantActivities =
     (if fp_gt0 (rollup_totalDuration_double descendantActivities)
      then fp_div (rollup_weightedSum_double descendantActivities)
             (rollup_totalDuration_double descendantActivities)
      else Fin 0)"

definition stats_avgProgress_double :: "Activity list \<Rightarrow> jsnum" where
  \<comment> \<open>the \<^verbatim>\<open>avgProgress\<close> that calculateWBSStats returns; the array length is an exact double\<close>
  "stats_avgProgress_double allDescendantActivities =
     (if length allDescendantActivities > 0
      then fp_div
             (foldl (\<lambda>sum a. fp_add sum (fp_num_or0 (progress_pct a))) (Fin 0)
                allDescendantActivities)
             (Fin (real (length allDescendantActivities)))
      else Fin 0)"

definition rollup_progress_pct_double :: "Activity list \<Rightarrow> jsnum" where
  \<comment> \<open>the \<^verbatim>\<open>progress_pct\<close> that calculateWBSRollups returns\<close>
  "rollup_progress_pct_double descendantActivities =
     (if length descendantActivities = 0 then Fin 0
      else fp_Math_round (rollup_avgProgress_double descendantActivities))"

definition stats_progress_pct_double :: "Activity list \<Rightarrow> jsnum" where
  \<comment> \<open>the \<^verbatim>\<open>progress_pct\<close> of the WBS node in ActivitiesPage.tsx,
      \<^verbatim>\<open>Math.round(stats.avgProgress)\<close>\<close>
  "stats_progress_pct_double allDescendantActivities =
     fp_Math_round (stats_avgProgress_double allDescendantActivities)"

section \<open>Hierarchy builders\<close>

subsection \<open>Strings, sets and sorting as the builders use them\<close>

definition falsy_parent :: "string option \<Rightarrow> bool" where
  \<comment> \<open>\<^verbatim>\<open>!wbs.parent_wbs_id\<close>: null or the empty string\<close>
  "falsy_parent p = (case p of None \<Rightarrow> True | Some s \<Rightarrow> s = [])"

fun nat_toString :: "nat \<Rightarrow> string" where
  \<comment> \<open>the decimal digits of an array length, as a template literal renders it\<close>
  "nat_toString n =
     (if n < 10 then [''0123456789'' ! n]
      else nat_toString (n div 10) @ [''0123456789'' ! (n mod 10)])"

declare nat_toString.simps [simp del]

fun localeCompare :: "string \<Rightarrow> string \<Rightarrow> real" where
  \<comment> \<open>\<^verbatim>\<open>String.prototype.localeCompare\<close>, modelled as the comparison by character code;
      the properties below use no fact about the order it induces\<close>
  "localeCompare [] [] = 0"
| "localeCompare [] (y # ys) = - 1"
| "localeCompare (x # xs) [] = 1"
| "localeCompare (x # xs) (y # ys) =
     (if (of_char x :: nat) < of_char y then - 1
      else if (of_char y :: nat) < of_char x then 1
      else localeCompare xs ys)"

fun insert_by :: "('a \<Rightarrow> 'a \<Rightarrow> real) \<Rightarrow> 'a \<Rightarrow> 'a list \<Rightarrow> 'a list" where
  "insert_by cmp x [] = [x]"
| "insert_by cmp x (y # ys) = (if cmp x y \<le> 0 then x # y # ys else y # insert_by cmp x ys)"

definition js_sort :: "('a \<Rightarrow> 'a \<Rightarrow> real) \<Rightarrow> 'a list \<Rightarrow> 'a list" where
  \<comment> \<open>\<^verbatim>\<open>Array.prototype.sort(compareFn)\<close> as a stable insertion sort\<close>
  "js_sort cmp xs = foldr (insert_by cmp) xs []"

definition Set_has :: "string list \<Rightarrow> string \<Rightarrow> bool" where
  \<comment> \<open>\<^verbatim>\<open>Set.prototype.has\<close>; a \<^verbatim>\<open>Set\<close> instance is the list of its elements in insertion order\<close>
  "Set_has s x = (x \<in> set s)"

type_synonym ActivityMap = "string \<Rightarrow> Activity list option"

definition map_push :: "ActivityMap \<Rightarrow> string \<Rightarrow> Activity \<Rightarrow> ActivityMap" where
  \<comment> \<open>\<^verbatim>\<open>if (!m.has(k)) m.set(k, []); m.get(k).push(a)\<close>\<close>
  "map_push m k a = m(k \<mapsto> (case m k of None \<Rightarrow> [] | Some xs \<Rightarrow> xs) @ [a])"

definition get_or_empty :: "ActivityMap \<Rightarrow> string \<Rightarrow> Activity list" where
  \<comment> \<open>\<^verbatim>\<open>m.get(k) || []\<close>\<close>
  "get_or_empty m k = (case m k of None \<Rightarrow> [] | Some xs \<Rightarrow> xs)"

definition sort_in_place :: "(Activity \<Rightarrow> Activity \<Rightarrow> real) \<Rightarrow> ActivityMap \<Rightarrow> string \<Rightarrow> ActivityMap" where
  \<comment> \<open>\<^verbatim>\<open>(m.get(k) || []).sort(cmp)\<close> sorts the array held by the map, when there is one\<close>
  "sort_in_place cmp m k = (case m k of None \<Rightarrow> m | Some xs \<Rightarrow> m(k \<mapsto> js_sort cmp xs))"

fun flatMap_opt :: "('a \<Rightarrow> 'b list option) \<Rightarrow> 'a list \<Rightarrow> 'b list option" where
  \<comment> \<open>\<^verbatim>\<open>xs.flatMap(f)\<close> where a call of \<open>f\<close> may fail to return\<close>
  "flatMap_opt f [] = Some []"
| "flatMap_opt f (x # xs) =
     (case f x of
        None \<Rightarrow> None
      | Some ys \<Rightarrow> (case flatMap_opt f xs of None \<Rightarrow> None | Some zs \<Rightarrow> Some (ys @ zs)))"

fun forEach_st :: "('a \<Rightarrow> 's \<Rightarrow> ('b list \<times> 's) option) \<Rightarrow> 'a list \<Rightarrow> 's \<Rightarrow> ('b list \<times> 's) option" where
  \<comment> \<open>\<^verbatim>\<open>xs.forEach(body)\<close>: each call appends to the output array and may update the
      shared state; a call that does not return ends the loop\<close>
  "forEach_st body [] s = Some ([], s)"
| "forEach_st body (x # xs) s =
     (case body x s of
        None \<Rightarrow> None
      | Some (out1, s1) \<Rightarrow>
          (case forEach_st body xs s1 of
             None \<Rightarrow> None
           | Some (out2, s2) \<Rightarrow> Some (out1 @ out2, s2)))"

fun getAllDescendantActivities :: "nat \<Rightarrow> ActivityMap \<Rightarrow> WBSItem list \<Rightarrow> string \<Rightarrow> Activity list option" where
  \<comment> \<open>the same function in ActivitiesPage.tsx and EnhancedActivitiesPage.tsx; the first
      argument bounds the depth of the recursion, \<open>None\<close> is a call that does not return\<close>
  "getAllDescendantActivities 0 activitiesByWBS wbsStructure wbsId = None"
| "getAllDescendantActivities (Suc fuel) activitiesByWBS wbsStructure wbsId =
     (let directActivities = get_or_empty activitiesByWBS wbsId;
          childWBS = filter (\<lambda>wbs. parent_wbs_id wbs = Some wbsId) wbsStructure
      in case flatMap_opt (\<lambda>childWbs. getAllDescendantActivities fuel activitiesByWBS wbsStructure
                                        (wbs_id childWbs)) childWBS of
           None \<Rightarrow> None
         | Some childActivities \<Rightarrow> Some (directActivities @ childActivities))"

datatype NodeType = ProjectT | WbsT | ActivityT

subsection \<open>ActivitiesPage.tsx: hierarchy\<close>

record ProjectInfo =
  \<comment> \<open>the two numeric ids are held as the strings that \<^verbatim>\<open>project_id?.toString()\<close> and
      \<^verbatim>\<open>schedule_id?.toString()\<close> give, which is all the builder reads of them; \<open>None\<close> is a
      missing id, for which the optional call gives \<^verbatim>\<open>undefined\<close>\<close>
  project_id :: "string option"
  project_name :: string
  schedule_name :: string
  schedule_id :: "string option"

record HierarchyNode =
  \<comment> \<open>not modelled: the \<^verbatim>\<open>activities\<close> field of a WBS node (a reference to the array held by
      \<^verbatim>\<open>activitiesByWBS\<close>) and the constant \<^verbatim>\<open>task_type\<close> and \<^verbatim>\<open>status_code\<close> of WBS nodes\<close>
  h_id :: string
  h_type :: NodeType
  h_name :: string                \<comment> \<open>without the decorative prefix character\<close>
  h_level :: nat
  h_expanded :: "bool option"
  h_isParent :: bool
  h_children :: "nat option"
  h_parent :: "string option"
  h_wbs_id :: "string option"
  h_duration_days :: "real option"
  h_early_start_date :: "int option"
  h_early_end_date :: "int option"
  h_progress_pct :: "real option"
  h_total_float_days :: "real option"
  h_activity :: "Activity option"  \<comment> \<open>the remaining fields of \<^verbatim>\<open>...activity\<close>\<close>

definition ap_wbsId :: "Activity \<Rightarrow> string" where
  \<comment> \<open>\<^verbatim>\<open>const wbsId = activity.wbs_id || 'unassigned'\<close>\<close>
  "ap_wbsId activity = (if act_wbs_id activity = [] then ''unassigned'' else act_wbs_id activity)"

definition activitiesByWBS_AP :: "Activity list \<Rightarrow> ActivityMap" where
  "activitiesByWBS_AP activities =
     foldl (\<lambda>m activity. map_push m (ap_wbsId activity) activity) Map.empty activities"

definition ap_projectNode :: "WBSItem list \<Rightarrow> ProjectInfo \<Rightarrow> string list \<Rightarrow> HierarchyNode" where
  "ap_projectNode wbsStructure projectInfo expandedNodes =
     \<lparr>h_id = ''project-root'', h_type = ProjectT,
      h_name = project_name projectInfo @ '' - '' @ schedule_name projectInfo,
      h_level = 0, h_expanded = Some (Set_has expandedNodes ''project-root''), h_isParent = True,
      h_children = Some (length wbsStructure), h_parent = None, h_wbs_id = None,
      h_duration_days = None, h_early_start_date = None, h_early_end_date = None,
      h_progress_pct = None, h_total_float_days = None, h_activity = None\<rparr>"

definition ap_activityNode :: "nat \<Rightarrow> string \<Rightarrow> Activity \<Rightarrow> HierarchyNode" where
  \<comment> \<open>the object pushed for an activity, at the given level and under the given parent\<close>
  "ap_activityNode lvl par activity =
     \<lparr>h_id = task_id activity, h_type = ActivityT,
      h_name = (if task_name activity = [] then ''Unnamed Activity'' else task_name activity),
      h_level = lvl, h_expanded = None, h_isParent = False, h_children = None,
      h_parent = Some par, h_wbs_id = Some (act_wbs_id activity),
      h_duration_days = duration_days activity,
      h_early_start_date = early_start_date activity, h_early_end_date = early_end_date activity,
      h_progress_pct = progress_pct activity, h_total_float_days = total_float_days activity,
      h_activity = Some activity\<rparr>"

definition ap_wbsNode ::
  "string list \<Rightarrow> string option \<Rightarrow> nat \<Rightarrow> WBSItem \<Rightarrow> Activity list \<Rightarrow> WBSStats \<Rightarrow> HierarchyNode" where
  "ap_wbsNode expandedNodes parentWbsId level wbs directActivities stats =
     \<lparr>h_id = ''wbs-'' @ wbs_id wbs, h_type = WbsT, h_name = wbs_name wbs, h_level = level,
      h_expanded = Some (Set_has expandedNodes (wbs_id wbs)), h_isParent = True,
      h_children = Some (length directActivities),
      h_parent = Some (case parentWbsId of None \<Rightarrow> ''project-root''
                       | Some p \<Rightarrow> if p = [] then ''project-root'' else p),
      h_wbs_id = Some (wbs_id wbs),
      h_duration_days = Some (totalDuration stats),
      h_early_start_date = startDate stats, h_early_end_date = endDate stats,
      h_progress_pct = Some (Math_round (avgProgress stats)),
      h_total_float_days = Some (minFloat stats), h_activity = None\<rparr>"

definition ap_activity_cmp :: "Activity \<Rightarrow> Activity \<Rightarrow> real" where
  "ap_activity_cmp a b =
     (case (early_start_date a, early_start_date b) of
        (Some dateA, Some dateB) \<Rightarrow>
          if dateA \<noteq> dateB then real_of_int (dateA - dateB)
          else localeCompare (task_id a) (task_id b)
      | _ \<Rightarrow> localeCompare (task_id a) (task_id b))"

definition ap_is_child :: "ProjectInfo \<Rightarrow> string option \<Rightarrow> WBSItem \<Rightarrow> bool" where
  \<comment> \<open>the filter predicate of buildWBSTree\<close>
  "ap_is_child projectInfo parentWbsId wbs =
     (case parentWbsId of
        None \<Rightarrow> falsy_parent (parent_wbs_id wbs)
                \<or> (case project_id projectInfo of
                      None \<Rightarrow> False | Some s \<Rightarrow> parent_wbs_id wbs = Some s)
                \<or> (case schedule_id projectInfo of
                      None \<Rightarrow> False | Some s \<Rightarrow> parent_wbs_id wbs = Some s)
      | Some p \<Rightarrow> parent_wbs_id wbs = Some p)"

definition buildWBSTree_item ::
  "(string option \<Rightarrow> nat \<Rightarrow> ActivityMap \<Rightarrow> (HierarchyNode list \<times> ActivityMap) option)
     \<Rightarrow> (ActivityMap \<Rightarrow> string \<Rightarrow> Activity list option)
     \<Rightarrow> string list \<Rightarrow> string option \<Rightarrow> nat \<Rightarrow> WBSItem \<Rightarrow> ActivityMap
     \<Rightarrow> (HierarchyNode list \<times> ActivityMap) option" where
  \<comment> \<open>the callback of \<^verbatim>\<open>childrenWBS.forEach\<close> in buildWBSTree: \<open>recur\<close> is the recursive call
      of buildWBSTree and \<open>descendants\<close> the call of getAllDescendantActivities; the result
      is the nodes pushed on \<^verbatim>\<open>hierarchyArray\<close> and the map \<^verbatim>\<open>activitiesByWBS\<close> with the
      arrays sorted in place\<close>
  "buildWBSTree_item recur descendants expandedNodes parentWbsId level wbs abw =
     (case descendants abw (wbs_id wbs) of
        None \<Rightarrow> None
      | Some allDescendantActivities \<Rightarrow>
          let directActivities = get_or_empty abw (wbs_id wbs);
              stats = calculateWBSStats allDescendantActivities;
              wbsNode = ap_wbsNode expandedNodes parentWbsId level wbs directActivities stats;
              shown = (Set_has expandedNodes (wbs_id wbs) \<and> length directActivities > 0);
              abw1 = (if shown then sort_in_place ap_activity_cmp abw (wbs_id wbs) else abw);
              activityNodes =
                (if shown
                 then map (ap_activityNode (level + 1) (wbs_id wbs))
                        (get_or_empty abw1 (wbs_id wbs))
                 else [])
          in (case recur (Some (wbs_id wbs)) (level + 1) abw1 of
                None \<Rightarrow> None
              | Some (sub, abw2) \<Rightarrow> Some (wbsNode # activityNodes @ sub, abw2)))"

fun buildWBSTree ::
  "nat \<Rightarrow> WBSItem list \<Rightarrow> ProjectInfo \<Rightarrow> string list \<Rightarrow> string option \<Rightarrow> nat \<Rightarrow> ActivityMap
     \<Rightarrow> (HierarchyNode list \<times> ActivityMap) option" where
  \<comment> \<open>the first argument bounds the depth of the recursion; \<open>None\<close> is a call that does
      not return\<close>
  "buildWBSTree 0 wbsStructure projectInfo expandedNodes parentWbsId level activitiesByWBS = None"
| "buildWBSTree (Suc fuel) wbsStructure projectInfo expandedNodes parentWbsId level activitiesByWBS =
     (let childrenWBS = js_sort (\<lambda>a b. localeCompare (wbs_name a) (wbs_name b))
                          (filter (ap_is_child projectInfo parentWbsId) wbsStructure)
      in forEach_st
           (buildWBSTree_item (buildWBSTree fuel wbsStructure projectInfo expandedNodes)
              (\<lambda>abw. getAllDescendantActivities fuel abw wbsStructure)
              expandedNodes parentWbsId level)
           childrenWBS activitiesByWBS)"

definition ap_unassignedNode :: "string list \<Rightarrow> Activity list \<Rightarrow> HierarchyNode" where
  "ap_unassignedNode expandedNodes unassignedActivities =
     \<lparr>h_id = ''wbs-unassigned'', h_type = WbsT,
      h_name = ''Unassigned Activities ('' @ nat_toString (length unassignedActivities) @ '')'',
      h_level = 1, h_expanded = Some (Set_has expandedNodes ''unassigned''), h_isParent = True,
      h_children = Some (length unassignedActivities), h_parent = Some ''project-root'',
      h_wbs_id = Some ''unassigned'',
      h_duration_days = None, h_early_start_date = None, h_early_end_date = None,
      h_progress_pct = None, h_total_float_days = None, h_activity = None\<rparr>"

definition hierarchy ::
  "nat \<Rightarrow> Activity list \<Rightarrow> WBSItem list \<Rightarrow> ProjectInfo option \<Rightarrow> string list
     \<Rightarrow> HierarchyNode list option" where
  "hierarchy fuel activities wbsStructure projectInfo expandedNodes =
     (case projectInfo of
        None \<Rightarrow> Some []
      | Some pinfo \<Rightarrow>
          let activitiesByWBS = activitiesByWBS_AP activities;
              projectNode = ap_projectNode wbsStructure pinfo expandedNodes
          in if Set_has expandedNodes ''project-root'' then
               (case buildWBSTree fuel wbsStructure pinfo expandedNodes None 1 activitiesByWBS of
                  None \<Rightarrow> None
                | Some (tree, abw) \<Rightarrow>
                    let unassignedActivities = get_or_empty abw ''unassigned''
                    in if length unassignedActivities > 0 then
                         Some (projectNode # tree
                               @ ap_unassignedNode expandedNodes unassignedActivities
                               # (if Set_has expandedNodes ''unassigned''
                                  then map (ap_activityNode 2 ''unassigned'') unassignedActivities
                                  else []))
                       else Some (projectNode # tree))
             else Some [projectNode])"

subsection \<open>EnhancedActivitiesPage.tsx: treeData\<close>

record Schedule =
  proj_id :: string
  proj_short_name :: string
  sched_name :: string            \<comment> \<open>\<^verbatim>\<open>Schedule.name\<close>\<close>

record ProjectSummary =
  \<comment> \<open>the fields of the component's \<^verbatim>\<open>projectSummary\<close> state that the project node copies\<close>
  overall_progress :: real
  project_start :: "int option"
  project_finish :: "int option"
  total_duration :: real

datatype NodeCode = Code string | LevelCode int
  \<comment> \<open>the \<^verbatim>\<open>code\<close> of a tree node: a string of the input, or the template literal
      \<^verbatim>\<open>`L${wbs.level}`\<close>, kept as the level it renders\<close>

record TreeNode =
  t_id :: string
  t_type :: NodeType
  t_code :: NodeCode
  t_name :: string
  t_level :: nat
  t_isExpanded :: bool
  t_hasChildren :: bool
  t_children :: nat               \<comment> \<open>length of the \<^verbatim>\<open>children\<close> array, which every node creates empty\<close>
  t_activityCount :: "nat option"
  t_task_id :: "string option"
  t_wbs_id :: "string option"
  t_duration_days :: "real option"
  t_progress_pct :: "real option"
  t_total_float_days :: "real option"
  t_early_start_date :: "int option"
  t_early_end_date :: "int option"
  t_activity :: "Activity option"  \<comment> \<open>the activity whose remaining fields the node copies\<close>

definition activitiesByWBS_raw :: "Activity list \<Rightarrow> ActivityMap" where
  \<comment> \<open>the grouping of EnhancedActivitiesPage.tsx and GanttChart.tsx, by \<^verbatim>\<open>activity.wbs_id\<close> as it is\<close>
  "activitiesByWBS_raw activities =
     foldl (\<lambda>m activity. map_push m (act_wbs_id activity) activity) Map.empty activities"

definition enh_projectNode :: "Activity list \<Rightarrow> string list \<Rightarrow> ProjectSummary \<Rightarrow> Schedule \<Rightarrow> TreeNode" where
  "enh_projectNode activities expandedWBS projectSummary schedule =
     \<lparr>t_id = ''project-root'', t_type = ProjectT,
      t_code = Code (if proj_id schedule = [] then ''PROJ'' else proj_id schedule),
      t_name = (if proj_short_name schedule = [] then sched_name schedule
                else proj_short_name schedule),
      t_level = 0, t_isExpanded = Set_has expandedWBS ''project-root'', t_hasChildren = True,
      t_children = 0, t_activityCount = Some (length activities),
      t_task_id = None, t_wbs_id = None,
      t_duration_days = Some (total_duration projectSummary),
      t_progress_pct = Some (overall_progress projectSummary),
      t_total_float_days = None,
      t_early_start_date = project_start projectSummary,
      t_early_end_date = project_finish projectSummary, t_activity = None\<rparr>"

definition enh_wbsNode ::
  "string list \<Rightarrow> nat \<Rightarrow> WBSItem \<Rightarrow> bool \<Rightarrow> Activity list \<Rightarrow> Activity list \<Rightarrow> WBSRollup \<Rightarrow> TreeNode" where
  "enh_wbsNode expandedWBS level wbs hasChildWBS wbsActivities allDescendantActivities rollupData =
     \<lparr>t_id = ''wbs-'' @ wbs_id wbs, t_type = WbsT,
      t_code = (if wbs_code wbs = [] then LevelCode (wbs_level wbs) else Code (wbs_code wbs)),
      t_name = (if wbs_name wbs = [] then ''Unnamed WBS'' else wbs_name wbs),
      t_level = level, t_isExpanded = Set_has expandedWBS (wbs_id wbs),
      t_hasChildren = (hasChildWBS \<or> length wbsActivities > 0),
      t_children = 0, t_activityCount = Some (length allDescendantActivities),
      t_task_id = None, t_wbs_id = Some (wbs_id wbs),
      t_duration_days = Some (r_duration_days rollupData),
      t_progress_pct = Some (r_progress_pct rollupData),
      t_total_float_days = Some (r_total_float_days rollupData),
      t_early_start_date = r_early_start_date rollupData,
      t_early_end_date = r_early_end_date rollupData, t_activity = None\<rparr>"

definition enh_activityNode :: "nat \<Rightarrow> Activity \<Rightarrow> TreeNode" where
  "enh_activityNode lvl activity =
     \<lparr>t_id = ''activity-'' @ task_id activity, t_type = ActivityT,
      t_code = Code (if activity_code activity = [] then task_id activity
                     else activity_code activity),
      t_name = (if task_name activity = [] then ''Unnamed Activity'' else task_name activity),
      t_level = lvl, t_isExpanded = False, t_hasChildren = False,
      t_children = 0, t_activityCount = None,
      t_task_id = Some (task_id activity), t_wbs_id = Some (act_wbs_id activity),
      t_duration_days = duration_days activity,
      t_progress_pct = progress_pct activity,
      t_total_float_days = total_float_days activity,
      t_early_start_date = early_start_date activity,
      t_early_end_date = early_end_date activity, t_activity = Some activity\<rparr>"

definition enh_is_child :: "string option \<Rightarrow> WBSItem \<Rightarrow> bool" where
  "enh_is_child parentId wbs =
     (case parentId of
        None \<Rightarrow> proj_node_flag wbs = ''Y'' \<or> wbs_level wbs = 0 \<or> falsy_parent (parent_wbs_id wbs)
      | Some p \<Rightarrow> parent_wbs_id wbs = Some p)"

definition enh_wbs_cmp :: "WBSItem \<Rightarrow> WBSItem \<Rightarrow> real" where
  "enh_wbs_cmp a b =
     (let d = num_or0 (sort_order a) - num_or0 (sort_order b)
      in if d \<noteq> 0 then d
         else localeCompare (if wbs_code a = [] then wbs_name a else wbs_code a)
                            (if wbs_code b = [] then wbs_name b else wbs_code b))"

definition enh_activity_cmp :: "Activity \<Rightarrow> Activity \<Rightarrow> real" where
  "enh_activity_cmp a b =
     (let codeCompare = localeCompare (activity_code a) (activity_code b)
      in if activity_code a \<noteq> [] \<and> activity_code b \<noteq> [] \<and> codeCompare \<noteq> 0 then codeCompare
         else real_of_int (getTime (early_start_date a) - getTime (early_start_date b)))"

definition enh_buildWBSNodes_item ::
  "(string option \<Rightarrow> nat \<Rightarrow> ActivityMap \<Rightarrow> (TreeNode list \<times> ActivityMap) option)
     \<Rightarrow> (ActivityMap \<Rightarrow> string \<Rightarrow> Activity list option)
     \<Rightarrow> WBSItem list \<Rightarrow> string list \<Rightarrow> nat \<Rightarrow> WBSItem \<Rightarrow> ActivityMap
     \<Rightarrow> (TreeNode list \<times> ActivityMap) option" where
  \<comment> \<open>the callback of \<^verbatim>\<open>childWBS.forEach\<close> in buildWBSNodes of EnhancedActivitiesPage.tsx\<close>
  "enh_buildWBSNodes_item recur descendants wbsStructure expandedWBS level wbs abw =
     (let wbsActivities = get_or_empty abw (wbs_id wbs);
          hasChildWBS = list_ex (\<lambda>w. parent_wbs_id w = Some (wbs_id wbs)) wbsStructure;
          isExpanded = Set_has expandedWBS (wbs_id wbs)
      in case descendants abw (wbs_id wbs) of
           None \<Rightarrow> None
         | Some allDescendantActivities \<Rightarrow>
             let rollupData = calculateWBSRollups allDescendantActivities;
                 wbsNode = enh_wbsNode expandedWBS level wbs hasChildWBS wbsActivities
                             allDescendantActivities rollupData
             in if isExpanded then
                  (case (if hasChildWBS then recur (Some (wbs_id wbs)) (level + 1) abw
                         else Some ([], abw)) of
                     None \<Rightarrow> None
                   | Some (sub, abw1) \<Rightarrow>
                       let abw2 = sort_in_place enh_activity_cmp abw1 (wbs_id wbs)
                       in Some (wbsNode # sub
                                @ map (enh_activityNode (level + 1))
                                    (get_or_empty abw2 (wbs_id wbs)), abw2))
                else Some ([wbsNode], abw))"

fun enh_buildWBSNodes ::
  "nat \<Rightarrow> WBSItem list \<Rightarrow> string list \<Rightarrow> string option \<Rightarrow> nat \<Rightarrow> ActivityMap
     \<Rightarrow> (TreeNode list \<times> ActivityMap) option" where
  "enh_buildWBSNodes 0 wbsStructure expandedWBS parentId level activitiesByWBS = None"
| "enh_buildWBSNodes (Suc fuel) wbsStructure expandedWBS parentId level activitiesByWBS =
     (let childWBS = js_sort enh_wbs_cmp (filter (enh_is_child parentId) wbsStructure)
      in forEach_st
           (enh_buildWBSNodes_item (enh_buildWBSNodes fuel wbsStructure expandedWBS)
              (\<lambda>abw. getAllDescendantActivities fuel abw wbsStructure)
              wbsStructure expandedWBS level)
           childWBS activitiesByWBS)"

definition treeData ::
  "nat \<Rightarrow> Activity list \<Rightarrow> WBSItem list \<Rightarrow> string list \<Rightarrow> ProjectSummary option \<Rightarrow> Schedule
     \<Rightarrow> TreeNode list option" where
  "treeData fuel activities wbsStructure expandedWBS projectSummary schedule =
     (if length wbsStructure = 0 \<or> length activities = 0 then Some []
      else
        (case projectSummary of
           None \<Rightarrow> Some []
         | Some summary \<Rightarrow>
             let projectNode = enh_projectNode activities expandedWBS summary schedule
             in if Set_has expandedWBS ''project-root'' then
                  (case enh_buildWBSNodes fuel wbsStructure expandedWBS None 1
                          (activitiesByWBS_raw activities) of
                     None \<Rightarrow> None
                   | Some (tree, abw) \<Rightarrow> Some (projectNode # tree))
                else Some [projectNode]))"

subsection \<open>GanttChart.tsx: ganttData\<close>

record GanttNode =
  \<comment> \<open>the \<^verbatim>\<open>color\<close> string of a node is not modelled\<close>
  g_id :: string
  g_type :: NodeType
  g_name :: string
  g_level :: nat
  g_isExpanded :: bool
  planned_start :: "jsdate option"
  planned_end :: "jsdate option"
  actual_start :: "jsdate option"
  actual_end :: "jsdate option"
  g_progress :: real
  g_duration :: real
  g_float :: real
  isCritical :: bool
  g_task_id :: "string option"
  g_wbs_code :: "string option"
  g_activityCount :: "nat option"

definition gantt_wbsNode :: "string list \<Rightarrow> nat \<Rightarrow> WBSItem \<Rightarrow> Activity list \<Rightarrow> GanttNode" where
  "gantt_wbsNode expandedWBS level wbs wbsActivities =
     (let summary = gantt_summary wbsActivities
      in \<lparr>g_id = ''wbs-'' @ wbs_id wbs, g_type = WbsT, g_name = wbs_name wbs, g_level = level,
          g_isExpanded = Set_has expandedWBS (wbs_id wbs),
          planned_start = map_option js_Date (wbsStart summary),
          planned_end = map_option js_Date (wbsEnd summary),
          actual_start = None, actual_end = None,
          g_progress = Math_round (weightedProgress summary),
          g_duration = g_totalDuration summary, g_float = 0, isCritical = False,
          g_task_id = None, g_wbs_code = Some (wbs_id wbs),
          g_activityCount = Some (length wbsActivities)\<rparr>)"

definition gantt_activityNode :: "nat \<Rightarrow> Activity \<Rightarrow> GanttNode" where
  "gantt_activityNode lvl activity =
     \<lparr>g_id = ''activity-'' @ task_id activity, g_type = ActivityT, g_name = task_name activity,
      g_level = lvl, g_isExpanded = False,
      planned_start = map_option DateAt (early_start_date activity),
      planned_end = map_option DateAt (early_end_date activity),
      actual_start = map_option DateAt (actual_start_date activity),
      actual_end = map_option DateAt (actual_end_date activity),
      g_progress = num_or0 (progress_pct activity),
      g_duration = num_or0 (duration_days activity),
      g_float = num_or0 (total_float_days activity),
      isCritical = (num_or0 (total_float_days activity) = 0),
      g_task_id = Some (task_id activity), g_wbs_code = Some (act_wbs_id activity),
      g_activityCount = None\<rparr>"

definition gantt_is_child :: "string option \<Rightarrow> WBSItem \<Rightarrow> bool" where
  "gantt_is_child parentId wbs =
     (case parentId of
        None \<Rightarrow> wbs_level wbs = 0 \<or> falsy_parent (parent_wbs_id wbs)
      | Some p \<Rightarrow> parent_wbs_id wbs = Some p)"

definition gantt_activity_cmp :: "Activity \<Rightarrow> Activity \<Rightarrow> real" where
  "gantt_activity_cmp a b =
     real_of_int (getTime (early_start_date a) - getTime (early_start_date b))"

definition gantt_buildWBSNodes_item ::
  "(string option \<Rightarrow> nat \<Rightarrow> ActivityMap \<Rightarrow> (GanttNode list \<times> ActivityMap) option)
     \<Rightarrow> string list \<Rightarrow> nat \<Rightarrow> WBSItem \<Rightarrow> ActivityMap
     \<Rightarrow> (GanttNode list \<times> ActivityMap) option" where
  \<comment> \<open>the callback of \<^verbatim>\<open>childWBS.forEach\<close> in buildWBSNodes of GanttChart.tsx\<close>
  "gantt_buildWBSNodes_item recur expandedWBS level wbs abw =
     (let wbsActivities = get_or_empty abw (wbs_id wbs);
          isExpanded = Set_has expandedWBS (wbs_id wbs);
          wbsNode = gantt_wbsNode expandedWBS level wbs wbsActivities
      in if isExpanded then
           let abw1 = sort_in_place gantt_activity_cmp abw (wbs_id wbs);
               activityNodes = map (gantt_activityNode (level + 1))
                                 (get_or_empty abw1 (wbs_id wbs))
           in (case recur (Some (wbs_id wbs)) (level + 1) abw1 of
                 None \<Rightarrow> None
               | Some (sub, abw2) \<Rightarrow> Some (wbsNode # activityNodes @ sub, abw2))
         else Some ([wbsNode], abw))"

fun gantt_buildWBSNodes ::
  "nat \<Rightarrow> WBSItem list \<Rightarrow> string list \<Rightarrow> string option \<Rightarrow> nat \<Rightarrow> ActivityMap
     \<Rightarrow> (GanttNode list \<times> ActivityMap) option" where
  "gantt_buildWBSNodes 0 wbsStructure expandedWBS parentId level activitiesByWBS = None"
| "gantt_buildWBSNodes (Suc fuel) wbsStructure expandedWBS parentId level activitiesByWBS =
     (let childWBS = js_sort (\<lambda>a b. localeCompare (wbs_name a) (wbs_name b))
                       (filter (gantt_is_child parentId) wbsStructure)
      in forEach_st
           (gantt_buildWBSNodes_item (gantt_buildWBSNodes fuel wbsStructure expandedWBS)
              expandedWBS level)
           childWBS activitiesByWBS)"

definition ganttData ::
  "nat \<Rightarrow> Activity list \<Rightarrow> WBSItem list \<Rightarrow> string list \<Rightarrow> GanttNode list option" where
  "ganttData fuel activities wbsStructure expandedWBS =
     (if projectTimeline activities = None \<or> length wbsStructure = 0 then Some []
      else (case gantt_buildWBSNodes fuel wbsStructure expandedWBS None 0
                   (activitiesByWBS_raw activities) of
              None \<Rightarrow> None
            | Some (nodes, abw) \<Rightarrow> Some nodes))"

section \<open>The rollup as the specification words it\<close>


definition in_range :: "Activity \<Rightarrow> bool" where
  \<comment> \<open>progress within 0..100 and a non-negative duration, missing values read as 0\<close>
  "in_range a = (0 \<le> num_or0 (progress_pct a) \<and> num_or0 (progress_pct a) \<le> 100
                 \<and> 0 \<le> num_or0 (duration_days a))"

section \<open>Example inputs\<close>

definition ex_activity ::
  "string \<Rightarrow> string \<Rightarrow> real \<Rightarrow> real \<Rightarrow> int option \<Rightarrow> int option \<Rightarrow> Activity" where
  \<comment> \<open>an activity with the given task id, WBS id, duration, progress, early start and early end\<close>
  "ex_activity tid wid d p s e =
     \<lparr>task_id = tid, task_name = tid, activity_code = [], act_wbs_id = wid,
      duration_days = Some d, early_start_date = s, early_end_date = e,
      actual_start_date = None, actual_end_date = None, progress_pct = Some p,
      total_float_days = Some 0\<rparr>"

definition ex_wbs :: "string \<Rightarrow> string option \<Rightarrow> int \<Rightarrow> WBSItem" where
  \<comment> \<open>a WBS item with the given id, parent id and level, named after its id\<close>
  "ex_wbs wid par lvl =
     \<lparr>wbs_id = wid, wbs_name = wid, wbs_code = [], parent_wbs_id = par, proj_node_flag = [],
      wbs_level = lvl, sort_order = None\<rparr>"

definition ex_project :: ProjectInfo where
  "ex_project = \<lparr>project_id = Some ''1'', project_name = ''P'', schedule_name = ''S'',
                  schedule_id = Some ''2''\<rparr>"

definition ex_inverted :: Activity where
  \<comment> \<open>an activity whose early end lies 60 days before its early start, started and finished
      on day 30\<close>
  "ex_inverted =
     \<lparr>task_id = ''T1'', task_name = ''T1'', activity_code = [], act_wbs_id = ''W1'',
      duration_days = Some 0, early_start_date = Some (60 * day_ms), early_end_date = Some 0,
      actual_start_date = Some (30 * day_ms), actual_end_date = Some (30 * day_ms),
      progress_pct = Some 0, total_float_days = Some 0\<rparr>"

definition ex_summary :: ProjectSummary where
  "ex_summary = \<lparr>overall_progress = 0, project_start = None, project_finish = None,
                  total_duration = 0\<rparr>"

definition ex_schedule :: Schedule where
  "ex_schedule = \<lparr>proj_id = ''P1'', proj_short_name = ''P'', sched_name = ''S''\<rparr>"

definition ex_unassigned :: Activity where
  "ex_unassigned = ex_activity ''T9'' [] 1 0 None None"

section \<open>Auxiliary notions for the proofs\<close>

definition no_reachable_cycle :: "(string \<Rightarrow> nat) \<Rightarrow> string list \<Rightarrow> ProjectInfo \<Rightarrow> WBSItem list \<Rightarrow> bool" where
  \<comment> \<open>\<open>S\<close> holds the id of every root-level item and of every item whose parent id is in
      \<open>S\<close>, and the rank grows strictly from a parent id in \<open>S\<close> to the item that names it\<close>
  "no_reachable_cycle rank S pinfo wbs =
     list_all (\<lambda>w. (\<not> ap_is_child pinfo None w \<or> wbs_id w \<in> set S)
                  \<and> (case parent_wbs_id w of
                        None \<Rightarrow> True
                      | Some p \<Rightarrow> p \<notin> set S \<or> (wbs_id w \<in> set S \<and> rank p < rank (wbs_id w)))) wbs"

definition bucket_eq :: "ActivityMap \<Rightarrow> ActivityMap \<Rightarrow> bool" where
  \<comment> \<open>the two maps hold the same activities under every key, up to their order\<close>
  "bucket_eq m m' = (\<forall>k. mset (get_or_empty m' k) = mset (get_or_empty m k))"

definition ap_node_ok :: "WBSItem list \<Rightarrow> string list \<Rightarrow> (string \<Rightarrow> nat) \<Rightarrow> HierarchyNode \<Rightarrow> bool" where
  "ap_node_ok wbs e len n =
     ((h_type n = WbsT \<and> (\<exists>w\<in>set wbs. h_wbs_id n = Some (wbs_id w) \<and> h_id n = ''wbs-'' @ wbs_id w
                             \<and> h_children n = Some (len (wbs_id w))
                             \<and> h_expanded n = Some (Set_has e (wbs_id w))))
      \<or> (h_type n = ActivityT \<and> (\<exists>w\<in>set wbs. h_parent n = Some (wbs_id w) \<and> Set_has e (wbs_id w))))"

definition ap_closed :: "WBSItem list \<Rightarrow> string list \<Rightarrow> (string \<Rightarrow> Activity set) \<Rightarrow> HierarchyNode list \<Rightarrow> bool" where
  "ap_closed wbs e bs out =
     (\<forall>n\<in>set out. \<forall>k. h_type n = WbsT \<and> h_wbs_id n = Some k \<longrightarrow>
        (\<forall>w\<in>set wbs. parent_wbs_id w = Some k
            \<longrightarrow> (\<exists>n'\<in>set out. h_type n' = WbsT \<and> h_wbs_id n' = Some (wbs_id w)))
        \<and> (Set_has e k \<longrightarrow> (\<forall>a\<in>bs k. ap_activityNode (h_level n + 1) k a \<in> set out)))"

definition ap_block :: "WBSItem list \<Rightarrow> string list \<Rightarrow> ActivityMap \<Rightarrow> WBSItem \<Rightarrow> HierarchyNode list \<Rightarrow> bool" where
  "ap_block wbs e m x b =
     (list_all (ap_node_ok wbs e (\<lambda>k. length (get_or_empty m k))) b
      \<and> ap_closed wbs e (\<lambda>k. set (get_or_empty m k)) b
      \<and> (\<exists>n\<in>set b. h_type n = WbsT \<and> h_wbs_id n = Some (wbs_id x)))"

definition ap_parent_of :: "string option \<Rightarrow> string" where
  \<comment> \<open>\<^verbatim>\<open>parentWbsId || 'project-root'\<close>, the \<^verbatim>\<open>parent\<close> field of a WBS node\<close>
  "ap_parent_of p = (case p of None \<Rightarrow> ''project-root''
                     | Some q \<Rightarrow> if q = [] then ''project-root'' else q)"

definition ap_under :: "WBSItem \<Rightarrow> HierarchyNode \<Rightarrow> HierarchyNode list \<Rightarrow> bool" where
  \<comment> \<open>the node \<open>n\<close> of the item \<open>w\<close> names the parent id of \<open>w\<close> as its parent, and a WBS node
      of that id is in \<open>out\<close>, one level up\<close>
  "ap_under w n out =
     (\<exists>k. parent_wbs_id w = Some k \<and> h_parent n = Some (if k = [] then ''project-root'' else k)
          \<and> (\<exists>n'\<in>set out. h_type n' = WbsT \<and> h_wbs_id n' = Some k
                            \<and> h_level n' + 1 = h_level n))"

definition ap_hangs :: "WBSItem list \<Rightarrow> ProjectInfo \<Rightarrow> string option \<Rightarrow> nat \<Rightarrow> HierarchyNode list \<Rightarrow> bool" where
  "ap_hangs wbs pinfo p l out =
     (\<forall>n\<in>set out. h_type n = WbsT \<longrightarrow>
        (\<exists>w\<in>set wbs. h_wbs_id n = Some (wbs_id w)
           \<and> ((h_level n = l \<and> ap_is_child pinfo p w \<and> h_parent n = Some (ap_parent_of p))
              \<or> (l < h_level n \<and> ap_under w n out))))"

definition push_node :: "HierarchyNode list \<Rightarrow> HierarchyNode \<Rightarrow> HierarchyNode list" where
  \<comment> \<open>the path to the next node of a flattened tree: the nodes of the path so far that are
      on a level above the new node, with the new node in front\<close>
  "push_node st n = n # dropWhile (\<lambda>m. h_level n \<le> h_level m) st"

definition path_to :: "HierarchyNode list \<Rightarrow> HierarchyNode list" where
  \<comment> \<open>the path from the last node of the sequence up to the root: the last node, then the
      nearest node before it on a smaller level, and so on\<close>
  "path_to xs = foldl push_node [] xs"

definition rank_above :: "(string \<Rightarrow> nat) \<Rightarrow> string option \<Rightarrow> nat" where
  "rank_above rank p = (case p of None \<Rightarrow> 0 | Some q \<Rightarrow> Suc (rank q))"

fun parent_chain :: "(string \<Rightarrow> nat) \<Rightarrow> string option \<Rightarrow> nat \<Rightarrow> HierarchyNode list \<Rightarrow> bool" where
  \<comment> \<open>a path read downwards from the children of \<open>p\<close> on level \<open>l\<close>: the levels grow by one,
      every node names the id of the node before it as its parent, an activity node ends the
      path, and the rank of the WBS ids grows strictly\<close>
  "parent_chain rank p l [] = True"
| "parent_chain rank p l (m # rest) =
     (h_level m = l
      \<and> ((h_type m = ActivityT \<and> rest = [] \<and> h_parent m = p)
         \<or> (h_type m = WbsT \<and> h_parent m = Some (ap_parent_of p)
            \<and> (\<exists>k. h_wbs_id m = Some k \<and> rank_above rank p \<le> rank k
                    \<and> parent_chain rank (Some k) (Suc l) rest))))"

definition paths_ok :: "(string \<Rightarrow> nat) \<Rightarrow> string option \<Rightarrow> nat \<Rightarrow> HierarchyNode list \<Rightarrow> bool" where
  "paths_ok rank p l xs =
     (\<forall>i. 0 < i \<and> i \<le> length xs \<longrightarrow> parent_chain rank p l (rev (path_to (take i xs))))"

definition levels_ok :: "nat \<Rightarrow> HierarchyNode list \<Rightarrow> bool" where
  "levels_ok l xs = ((\<forall>n\<in>set xs. l \<le> h_level n) \<and> (xs \<noteq> [] \<longrightarrow> h_level (hd xs) = l))"








definition is_unit :: "real \<Rightarrow> bool" where
  \<comment> \<open>a non-negative multiple of \<open>2 ^ - 1074\<close>, as every non-negative double is\<close>
  "is_unit x = (\<exists>n::nat. x * 2 ^ 1074 = of_nat n)"

definition u53 :: real where
  \<comment> \<open>the unit roundoff of double arithmetic\<close>
  "u53 = 1 / 2 ^ 53"

definition RN :: "real \<Rightarrow> real" where
  \<comment> \<open>the double nearest to a non-negative real, the exponent unbounded\<close>
  "RN x = round_units (x * 2 ^ 1074) / 2 ^ 1074"

section \<open>Properties of the rollup calculator\<close>

lemma foldl_sum: "foldl (\<lambda>s a. s + f a) z xs = z + sum_list (map f xs)" for z :: real
  by (induction xs arbitrary: z) auto

lemma ex_activity_sel [simp]:
  "duration_days (ex_activity t w d p s e) = Some d"
  "progress_pct (ex_activity t w d p s e) = Some p"
  "early_start_date (ex_activity t w d p s e) = s"
  "early_end_date (ex_activity t w d p s e) = e"
  "total_float_days (ex_activity t w d p s e) = Some 0"
  "act_wbs_id (ex_activity t w d p s e) = w"
  "task_id (ex_activity t w d p s e) = t"
  by (simp_all add: ex_activity_def)

lemma rollup_avgProgress_sum:
  "rollup_avgProgress as =
     (if sum_list (map (\<lambda>a. num_or0 (duration_days a)) as) > 0
      then sum_list (map (\<lambda>a. num_or0 (progress_pct a) * num_or0 (duration_days a)) as)
           / sum_list (map (\<lambda>a. num_or0 (duration_days a)) as)
      else 0)"
  by (simp add: rollup_avgProgress_def rollup_totalDuration_def foldl_sum)

lemma stats_avgProgress_mean:
  "as \<noteq> [] \<Longrightarrow> avgProgress (calculateWBSStats as)
     = sum_list (map (\<lambda>a. num_or0 (progress_pct a)) as) / real (length as)"
  by (simp add: calculateWBSStats_def Let_def foldl_sum)


text \<open>
  C8. The rollup of the empty activity list has all numeric fields 0 and both dates null, at
  each of the three call sites; the model has no error value for a rollup to return.
\<close>

theorem rollup_empty:
  "calculateWBSStats [] =
     \<lparr>totalDuration = 0, avgProgress = 0, minFloat = 0, startDate = None, endDate = None\<rparr>
   \<and> calculateWBSRollups [] =
     \<lparr>r_progress_pct = 0, r_early_start_date = None, r_early_end_date = None,
      r_duration_days = 0, r_total_float_days = 0\<rparr>
   \<and> gantt_summary [] =
     \<lparr>wbsStart = None, wbsEnd = None, g_totalDuration = 0, weightedProgress = 0\<rparr>"
  by (simp add: calculateWBSStats_def calculateWBSRollups_def gantt_summary_def)




text \<open>
  C2, at the input the claim names: one activity with duration 10, an early start and a null
  early end. calculateWBSStats and calculateWBSRollups leave it out of the date range and
  count its duration, giving a total of 10; the Gantt summary computes the total duration
  only inside the branch that requires a dated activity, and gives 0.
\<close>

theorem gantt_summary_loses_undated_duration:
  "totalDuration (calculateWBSStats [ex_activity ''T1'' ''W1'' 10 0 (Some 0) None]) = 10
   \<and> startDate (calculateWBSStats [ex_activity ''T1'' ''W1'' 10 0 (Some 0) None]) = None
   \<and> endDate (calculateWBSStats [ex_activity ''T1'' ''W1'' 10 0 (Some 0) None]) = None
   \<and> r_duration_days (calculateWBSRollups [ex_activity ''T1'' ''W1'' 10 0 (Some 0) None]) = 10
   \<and> g_totalDuration (gantt_summary [ex_activity ''T1'' ''W1'' 10 0 (Some 0) None]) = 0"
  by (simp add: gantt_summary_def calculateWBSStats_def calculateWBSRollups_def
        rollup_totalDuration_def Let_def has_both_dates_def truthy_date_def num_or0_def)

lemma weighted_sum_bounds:
  assumes "list_all in_range as"
  shows "0 \<le> sum_list (map (\<lambda>a. num_or0 (progress_pct a) * num_or0 (duration_days a)) as)"
    and "sum_list (map (\<lambda>a. num_or0 (progress_pct a) * num_or0 (duration_days a)) as)
           \<le> 100 * sum_list (map (\<lambda>a. num_or0 (duration_days a)) as)"
    and "0 \<le> sum_list (map (\<lambda>a. num_or0 (progress_pct a)) as)"
    and "sum_list (map (\<lambda>a. num_or0 (progress_pct a)) as) \<le> 100 * real (length as)"
  using assms
  by (induction as) (auto simp: in_range_def mult_right_mono intro: add_mono)

lemma Math_round_bounds: "0 \<le> x \<Longrightarrow> x \<le> 100 \<Longrightarrow> 0 \<le> Math_round x \<and> Math_round x \<le> 100"
  unfolding Math_round_def by (simp add: floor_le_iff le_floor_iff)

lemma rollup_avgProgress_bounds:
  assumes "list_all in_range as"
  shows "0 \<le> rollup_avgProgress as \<and> rollup_avgProgress as \<le> 100"
  using weighted_sum_bounds(1,2) [OF assms]
  by (auto simp: rollup_avgProgress_sum divide_le_eq)

lemma stats_avgProgress_bounds:
  assumes "list_all in_range as"
  shows "0 \<le> avgProgress (calculateWBSStats as) \<and> avgProgress (calculateWBSStats as) \<le> 100"
proof (cases "as = []")
  case True
  then show ?thesis by (simp add: calculateWBSStats_def)
next
  case False
  then show ?thesis
    using weighted_sum_bounds(3,4) [OF assms] by (simp add: stats_avgProgress_mean divide_le_eq)
qed

text \<open>
  In exact arithmetic the two means lie within 0..100 (the lemmas above). The code computes
  in doubles; the rest of this section is about the values it computes.
\<close>

subsection \<open>Rounding to the nearest double\<close>

lemma round_even_of_int [simp]: "round_even (of_int m) = m"
  by (simp add: round_even_def)

lemma round_even_err: "\<bar>of_int (round_even y) - y\<bar> \<le> 1 / 2"
  unfolding round_even_def Let_def by (auto simp: abs_if) linarith+

lemma round_even_mono: "y \<le> z \<Longrightarrow> round_even y \<le> round_even z"
proof -
  assume yz: "y \<le> z"
  have fm: "\<lfloor>y\<rfloor> \<le> \<lfloor>z\<rfloor>" using yz by (rule floor_mono)
  have ub: "round_even y \<le> \<lfloor>y\<rfloor> + 1" and lb: "\<lfloor>z\<rfloor> \<le> round_even z"
    by (auto simp: round_even_def Let_def)
  show ?thesis
  proof (cases "\<lfloor>y\<rfloor> < \<lfloor>z\<rfloor>")
    case True
    then show ?thesis using ub lb by linarith
  next
    case False
    then have eq: "\<lfloor>y\<rfloor> = \<lfloor>z\<rfloor>" using fm by simp
    then show ?thesis using yz by (auto simp: round_even_def Let_def)
  qed
qed

lemma round_even_ge: "of_int m \<le> y \<Longrightarrow> m \<le> round_even y"
  using round_even_mono [of "of_int m" y] by simp

lemma round_even_le: "y \<le> of_int m \<Longrightarrow> round_even y \<le> m"
  using round_even_mono [of y "of_int m"] by simp

lemma ulp_exp_le: "ulp_exp N y \<le> N"
  by (induction N) auto

lemma ulp_exp_lower: "0 < ulp_exp N y \<Longrightarrow> 2 ^ (ulp_exp N y + 52) \<le> y"
  by (induction N) (auto split: if_splits)

lemma ulp_exp_upper: "ulp_exp N y < N \<Longrightarrow> y < 2 ^ (ulp_exp N y + 53)"
proof (induction N)
  case 0
  then show ?case by simp
next
  case (Suc n)
  show ?case
  proof (cases "2 ^ (Suc n + 52) \<le> y")
    case True
    then show ?thesis using Suc.prems by simp
  next
    case False
    then have r: "ulp_exp (Suc n) y = ulp_exp n y" by simp
    show ?thesis
    proof (cases "ulp_exp n y < n")
      case True
      then show ?thesis using Suc.IH r by simp
    next
      case False
      then have "ulp_exp n y = n" using ulp_exp_le [of n y] by simp
      then show ?thesis using \<open>\<not> 2 ^ (Suc n + 52) \<le> y\<close> r by (simp add: ac_simps)
    qed
  qed
qed

lemma ulp_exp_eq:
  assumes "k \<le> N" and "k = 0 \<or> 2 ^ (k + 52) \<le> y" and "k < N \<Longrightarrow> y < 2 ^ (k + 53)"
  shows "ulp_exp N y = k"
proof (rule ccontr)
  assume ne: "ulp_exp N y \<noteq> k"
  let ?r = "ulp_exp N y"
  show False
  proof (cases "?r < k")
    case True
    then have "?r < N" using assms(1) by simp
    then have "y < 2 ^ (?r + 53)" by (rule ulp_exp_upper)
    also have "(2::real) ^ (?r + 53) \<le> 2 ^ (k + 52)"
      using True by (intro power_increasing) auto
    finally show False using assms(2) True by auto
  next
    case False
    then have gt: "k < ?r" using ne by simp
    then have "k < N" using ulp_exp_le [of N y] by simp
    then have "y < 2 ^ (k + 53)" by (rule assms(3))
    also have "(2::real) ^ (k + 53) \<le> 2 ^ (?r + 52)"
      using gt by (intro power_increasing) auto
    finally show False using ulp_exp_lower [of N y] gt by auto
  qed
qed

lemma ulp_exp_mono: "y \<le> z \<Longrightarrow> ulp_exp N y \<le> ulp_exp N z"
proof (induction N)
  case 0
  then show ?case by simp
next
  case (Suc n)
  then show ?case using ulp_exp_le [of n y] by (auto simp: le_Suc_eq)
qed

lemma round_units_nonneg: "0 \<le> y \<Longrightarrow> 0 \<le> round_units y"
  unfolding round_units_def Let_def
  using round_even_ge [of 0 "y / 2 ^ ulp_exp 2045 y"] by simp

lemma round_units_lower:
  assumes "0 < ulp_exp 2045 y"
  shows "2 ^ (ulp_exp 2045 y + 52) \<le> round_units y"
proof -
  let ?k = "ulp_exp 2045 y"
  have "(2::real) ^ 52 \<le> y / 2 ^ ?k"
    using ulp_exp_lower [OF assms] by (simp add: le_divide_eq power_add mult.commute)
  then have "of_int (2 ^ 52) \<le> y / 2 ^ ?k" by simp
  then have "(2::int) ^ 52 \<le> round_even (y / 2 ^ ?k)" by (rule round_even_ge)
  then have "(2::real) ^ 52 \<le> of_int (round_even (y / 2 ^ ?k))"
    by (metis of_int_le_iff of_int_numeral of_int_power)
  then have "(2::real) ^ 52 * 2 ^ ?k \<le> of_int (round_even (y / 2 ^ ?k)) * 2 ^ ?k"
    by (intro mult_right_mono) auto
  then show ?thesis by (simp add: round_units_def Let_def power_add mult.commute)
qed

lemma round_units_upper:
  assumes "0 \<le> y" and "ulp_exp 2045 y < 2045"
  shows "round_units y \<le> 2 ^ (ulp_exp 2045 y + 53)"
proof -
  let ?k = "ulp_exp 2045 y"
  have "y / 2 ^ ?k \<le> (2::real) ^ 53"
    using ulp_exp_upper [OF assms(2)] by (simp add: divide_le_eq power_add mult.commute)
  then have "y / 2 ^ ?k \<le> of_int (2 ^ 53)" by simp
  then have "round_even (y / 2 ^ ?k) \<le> (2::int) ^ 53" by (rule round_even_le)
  then have "of_int (round_even (y / 2 ^ ?k)) \<le> (2::real) ^ 53"
    by (metis of_int_le_iff of_int_numeral of_int_power)
  then have "of_int (round_even (y / 2 ^ ?k)) * 2 ^ ?k \<le> (2::real) ^ 53 * 2 ^ ?k"
    by (intro mult_right_mono) auto
  then show ?thesis by (simp add: round_units_def Let_def power_add mult.commute)
qed

lemma round_units_mono:
  assumes "0 \<le> y" and "y \<le> z"
  shows "round_units y \<le> round_units z"
proof -
  let ?ky = "ulp_exp 2045 y" and ?kz = "ulp_exp 2045 z"
  have kk: "?ky \<le> ?kz" using assms(2) by (rule ulp_exp_mono)
  show ?thesis
  proof (cases "?ky = ?kz")
    case True
    have "y / 2 ^ ?kz \<le> z / 2 ^ ?kz" using assms(2) by (simp add: divide_right_mono)
    then have "round_even (y / 2 ^ ?kz) \<le> round_even (z / 2 ^ ?kz)" by (rule round_even_mono)
    then have "(of_int (round_even (y / 2 ^ ?kz)) :: real) \<le> of_int (round_even (z / 2 ^ ?kz))"
      by simp
    then have "of_int (round_even (y / 2 ^ ?kz)) * (2::real) ^ ?kz
                 \<le> of_int (round_even (z / 2 ^ ?kz)) * 2 ^ ?kz"
      by (intro mult_right_mono) auto
    then show ?thesis using True by (simp add: round_units_def Let_def)
  next
    case False
    then have lt: "?ky < ?kz" using kk by simp
    then have "?ky < 2045" using ulp_exp_le [of 2045 z] by simp
    then have "round_units y \<le> 2 ^ (?ky + 53)" by (rule round_units_upper [OF assms(1)])
    also have "(2::real) ^ (?ky + 53) \<le> 2 ^ (?kz + 52)"
      using lt by (intro power_increasing) auto
    also have "\<dots> \<le> round_units z" using lt by (intro round_units_lower) simp
    finally show ?thesis .
  qed
qed

lemma round_units_exact:
  assumes "m \<le> 2 ^ 53"
  shows "round_units (of_nat m * 2 ^ j) = of_nat m * 2 ^ j"
proof -
  let ?y = "of_nat m * (2::real) ^ j"
  let ?k = "ulp_exp 2045 ?y"
  have "\<exists>i::int. ?y / 2 ^ ?k = of_int i"
  proof (cases "?k \<le> j")
    case True
    then have "?y / 2 ^ ?k = of_nat m * 2 ^ (j - ?k)"
      by (simp add: power_diff)
    also have "\<dots> = of_int (int m * 2 ^ (j - ?k))" by simp
    finally show ?thesis by blast
  next
    case False
    then have kpos: "0 < ?k" by simp
    have "(2::real) ^ (?k + 52) \<le> ?y" using kpos by (rule ulp_exp_lower)
    also have "?y \<le> 2 ^ 53 * 2 ^ j"
    proof -
      have "(of_nat m :: real) \<le> of_nat (2 ^ 53)" using assms by (intro of_nat_mono)
      then have "(of_nat m :: real) \<le> 2 ^ 53" by simp
      then show ?thesis by (intro mult_right_mono) auto
    qed
    also have "\<dots> = (2::real) ^ (53 + j)" by (simp add: power_add)
    finally have "?k + 52 \<le> 53 + j" by (simp add: power_le_imp_le_exp)
    then have k: "?k = j + 1" using False by simp
    have "(2::real) ^ (j + 53) \<le> of_nat m * 2 ^ j"
      using ulp_exp_lower [OF kpos] k by (simp add: ac_simps)
    then have "(2::real) ^ 53 * 2 ^ j \<le> of_nat m * 2 ^ j" by (simp add: power_add ac_simps)
    then have "(2::real) ^ 53 \<le> of_nat m" by simp
    then have "(of_nat (2 ^ 53) :: real) \<le> of_nat m" by simp
    then have "2 ^ 53 \<le> m" by (simp only: of_nat_le_iff)
    then have m: "m = 2 ^ 53" using assms by simp
    have "?y / 2 ^ ?k = 2 ^ 52" by (simp only: k) (simp add: m power_add)
    also have "\<dots> = of_int (2 ^ 52)" by simp
    finally show ?thesis by blast
  qed
  then obtain i :: int where i: "?y / 2 ^ ?k = of_int i" ..
  then have "round_units ?y = of_int i * 2 ^ ?k"
    by (simp add: round_units_def Let_def del: of_nat_mult)
  also have "\<dots> = ?y" using i by (simp add: field_simps)
  finally show ?thesis .
qed

lemma round_units_err:
  "\<bar>round_units y - y\<bar> \<le> 2 ^ ulp_exp 2045 y / 2"
proof -
  let ?k = "ulp_exp 2045 y"
  have "round_units y - y = (of_int (round_even (y / 2 ^ ?k)) - y / 2 ^ ?k) * 2 ^ ?k"
    by (simp add: round_units_def Let_def field_simps)
  then have "\<bar>round_units y - y\<bar> = \<bar>of_int (round_even (y / 2 ^ ?k)) - y / 2 ^ ?k\<bar> * 2 ^ ?k"
    by (simp add: abs_mult)
  also have "\<dots> \<le> 1 / 2 * 2 ^ ?k"
    by (intro mult_right_mono round_even_err) auto
  finally show ?thesis by simp
qed

lemma round_units_integer: "\<exists>i::nat. 0 \<le> y \<longrightarrow> round_units y = of_nat i"
proof (cases "0 \<le> y")
  case False
  then show ?thesis by simp
next
  case True
  let ?k = "ulp_exp 2045 y"
  have "0 \<le> round_even (y / 2 ^ ?k)" using True by (intro round_even_ge) simp
  then obtain n :: nat where n: "round_even (y / 2 ^ ?k) = int n"
    using nonneg_int_cases by blast
  have "round_units y = of_nat (n * 2 ^ ?k)"
    by (simp add: round_units_def Let_def n)
  then show ?thesis by blast
qed

lemma fp_ops_Fin [simp]:
  "fp_add (Fin x) (Fin y) = (if x + y = 0 then Fin 0 else to_double (x + y))"
  "0 \<le> x \<Longrightarrow> 0 \<le> y \<Longrightarrow> fp_mul (Fin x) (Fin y) = to_double (x * y)"
  "0 \<le> x \<Longrightarrow> 0 < y \<Longrightarrow> fp_div (Fin x) (Fin y) = to_double (x / y)"
  "fp_gt0 (Fin x) = (0 < x)"
  by (auto simp: fp_add_def fp_mul_def fp_div_def fp_gt0_def is_inf_def is_zero_def is_neg_def
        fin_val_def fp_signed_def)

lemma round_units_0 [simp]: "round_units 0 = 0"
  using round_units_exact [of 0 0] by simp

lemma to_double_nonneg:
  assumes "0 \<le> x"
  shows "to_double x = (if 2 ^ 2098 \<le> round_units (x * 2 ^ 1074) then PosInf else Fin (RN x))"
proof (cases "x = 0")
  case True
  then show ?thesis by (simp add: to_double_def RN_def)
next
  case False
  then have "0 < x" using assms by simp
  then show ?thesis by (simp add: to_double_def RN_def Let_def)
qed

lemma RN_nonneg: "0 \<le> x \<Longrightarrow> 0 \<le> RN x"
  unfolding RN_def using round_units_nonneg [of "x * 2 ^ 1074"] by simp

lemma RN_mono: "0 \<le> x \<Longrightarrow> x \<le> y \<Longrightarrow> RN x \<le> RN y"
  unfolding RN_def using round_units_mono [of "x * 2 ^ 1074" "y * 2 ^ 1074"]
  by (simp add: divide_right_mono)

lemma RN_exact_nat: "n \<le> 2 ^ 53 \<Longrightarrow> RN (of_nat n) = of_nat n"
  unfolding RN_def using round_units_exact [of n 1074] by simp

lemma to_double_below_nat:
  assumes "0 \<le> x" and "x \<le> of_nat n" and "n \<le> 2 ^ 53"
  shows "to_double x = Fin (RN x) \<and> 0 \<le> RN x \<and> RN x \<le> of_nat n"
proof -
  have le: "RN x \<le> of_nat n" using RN_mono [OF assms(1,2)] RN_exact_nat [OF assms(3)] by simp
  have "(of_nat n :: real) \<le> of_nat (2 ^ 53)" using assms(3) by (intro of_nat_mono)
  then have "RN x \<le> 2 ^ 53" using le by simp
  then have "round_units (x * 2 ^ 1074) \<le> 2 ^ 53 * 2 ^ 1074"
    unfolding RN_def by (simp add: divide_le_eq)
  also have "\<dots> < (2::real) ^ 2098"
    unfolding power_add [symmetric] by (intro power_strict_increasing) auto
  finally have "\<not> 2 ^ 2098 \<le> round_units (x * 2 ^ 1074)" by simp
  then show ?thesis using le RN_nonneg [OF assms(1)] to_double_nonneg [OF assms(1)] by simp
qed

lemma fp_num_or0_progress:
  assumes "in_range a"
  shows "\<exists>p. fp_num_or0 (progress_pct a) = Fin p \<and> 0 \<le> p \<and> p \<le> 100"
proof (cases "progress_pct a")
  case None
  then show ?thesis by (simp add: fp_num_or0_def)
next
  case (Some v)
  then have v: "0 \<le> v" "v \<le> of_nat 100" using assms by (simp_all add: in_range_def num_or0_def)
  have "to_double v = Fin (RN v) \<and> 0 \<le> RN v \<and> RN v \<le> of_nat 100"
    by (rule to_double_below_nat [OF v]) simp
  then show ?thesis using Some by (simp add: fp_num_or0_def)
qed

lemma progress_sum_double:
  assumes "list_all in_range as" and "0 \<le> s" and "s \<le> of_nat (100 * k)"
    and "k + length as \<le> 2 ^ 32"
  shows "\<exists>t. foldl (\<lambda>sum a. fp_add sum (fp_num_or0 (progress_pct a))) (Fin s) as = Fin t
             \<and> 0 \<le> t \<and> t \<le> of_nat (100 * (k + length as))"
  using assms
proof (induction as arbitrary: s k)
  case Nil
  then show ?case by simp
next
  case (Cons a as)
  from Cons.prems(1) have ra: "in_range a" and ras: "list_all in_range as" by simp_all
  from fp_num_or0_progress [OF ra] obtain p where
    p: "fp_num_or0 (progress_pct a) = Fin p" "0 \<le> p" "p \<le> 100" by blast
  have b: "s + p \<le> of_nat (100 * (k + 1))" using Cons.prems(3) p(3) by simp
  have k1: "100 * (k + 1) \<le> (2::nat) ^ 53" using Cons.prems(4) by simp
  have td: "to_double (s + p) = Fin (RN (s + p)) \<and> 0 \<le> RN (s + p)
            \<and> RN (s + p) \<le> of_nat (100 * (k + 1))"
    by (rule to_double_below_nat [OF _ b k1]) (use Cons.prems(2) p(2) in simp)
  define s' where "s' = (if s + p = 0 then 0 else RN (s + p))"
  have s': "fp_add (Fin s) (Fin p) = Fin s'" "0 \<le> s'" "s' \<le> of_nat (100 * (k + 1))"
    using td by (simp_all add: s'_def)
  have "\<exists>t. foldl (\<lambda>sum a. fp_add sum (fp_num_or0 (progress_pct a))) (Fin s') as = Fin t
             \<and> 0 \<le> t \<and> t \<le> of_nat (100 * ((k + 1) + length as))"
    by (rule Cons.IH [OF ras s'(2,3)]) (use Cons.prems(4) in simp)
  then show ?case using p(1) s'(1) by simp
qed

lemma stats_avgProgress_double_bounds:
  assumes "list_all in_range as" and "length as < 2 ^ 32"
  shows "\<exists>x. stats_avgProgress_double as = Fin x \<and> 0 \<le> x \<and> x \<le> 100"
proof (cases "as = []")
  case True
  then show ?thesis by (simp add: stats_avgProgress_double_def)
next
  case False
  then have n: "0 < length as" by simp
  obtain t where t: "foldl (\<lambda>sum a. fp_add sum (fp_num_or0 (progress_pct a))) (Fin 0) as = Fin t"
    "0 \<le> t" "t \<le> of_nat (100 * length as)"
    using progress_sum_double [OF assms(1), of 0 0] assms(2) by auto
  have q: "0 \<le> t / real (length as)" "t / real (length as) \<le> of_nat 100"
    using t(2,3) n by (simp_all add: divide_le_eq)
  have "to_double (t / real (length as)) = Fin (RN (t / real (length as)))
        \<and> 0 \<le> RN (t / real (length as)) \<and> RN (t / real (length as)) \<le> of_nat 100"
    by (rule to_double_below_nat [OF q]) simp
  then show ?thesis using t(1,2) n by (simp add: stats_avgProgress_double_def)
qed

lemma to_double_eval:
  assumes "0 < x" and "k \<le> 2045" and "k = 0 \<or> 2 ^ (k + 52) \<le> x * 2 ^ 1074"
    and "x * 2 ^ 1074 < 2 ^ (k + 53)"
    and "round_even (x * 2 ^ 1074 / 2 ^ k) = m" and "0 < m" and "of_int m * 2 ^ k < (2::real) ^ 2098"
  shows "to_double x = Fin (of_int m * 2 ^ k / 2 ^ 1074)"
proof -
  have k: "ulp_exp 2045 (x * 2 ^ 1074) = k"
    by (rule ulp_exp_eq) (use assms in auto)
  have r: "round_units (x * 2 ^ 1074) = of_int m * 2 ^ k"
    by (simp only: round_units_def Let_def k assms(5))
  have "RN x = of_int m * 2 ^ k / 2 ^ 1074" unfolding RN_def r ..
  moreover have "\<not> 2 ^ 2098 \<le> round_units (x * 2 ^ 1074)" unfolding r using assms(7) by simp
  ultimately show ?thesis using to_double_nonneg [of x] assms(1) by simp
qed

lemma to_double_exact:
  assumes "m \<le> 2 ^ 53" and "j \<le> 2044" and "0 < m"
  shows "to_double (of_nat m * 2 ^ j / 2 ^ 1074) = Fin (of_nat m * 2 ^ j / 2 ^ 1074)"
proof -
  let ?x = "of_nat m * (2::real) ^ j / 2 ^ 1074"
  have r: "round_units (?x * 2 ^ 1074) = of_nat m * 2 ^ j"
    using round_units_exact [OF assms(1), of j] by simp
  have "(of_nat m :: real) \<le> of_nat (2 ^ 53)" using assms(1) by (intro of_nat_mono)
  then have "of_nat m * (2::real) ^ j \<le> 2 ^ 53 * 2 ^ j" by (intro mult_right_mono) auto
  also have "\<dots> < (2::real) ^ 2098"
    unfolding power_add [symmetric] using assms(2) by (intro power_strict_increasing) auto
  finally have "\<not> 2 ^ 2098 \<le> round_units (?x * 2 ^ 1074)" unfolding r by simp
  moreover have "RN ?x = ?x" unfolding RN_def r ..
  moreover have "0 \<le> ?x" by simp
  ultimately show ?thesis using to_double_nonneg [of ?x] by simp
qed

lemma to_double_overflow:
  assumes "2 ^ 1024 \<le> x"
  shows "to_double x = PosInf"
proof -
  have x: "0 \<le> x" using assms by (meson order_trans zero_le_numeral zero_le_power)
  have "(2::real) ^ 2098 = of_nat (2 ^ 53) * 2 ^ 2045" by (simp add: power_add [symmetric])
  then have e: "round_units (2 ^ 2098) = 2 ^ 2098"
    using round_units_exact [of "2 ^ 53" 2045] by simp
  have "(2::real) ^ 2098 = 2 ^ 1024 * 2 ^ 1074" by (simp add: power_add [symmetric])
  also have "\<dots> \<le> x * 2 ^ 1074" using assms by (intro mult_right_mono) auto
  finally have "round_units (2 ^ 2098) \<le> round_units (x * 2 ^ 1074)"
    by (intro round_units_mono) auto
  then show ?thesis using e to_double_nonneg [OF x] by simp
qed

lemma RN_0 [simp]: "RN 0 = 0"
  by (simp add: RN_def)

lemma is_unit_0 [simp]: "is_unit 0"
  by (simp add: is_unit_def)

lemma is_unit_RN: "0 \<le> x \<Longrightarrow> is_unit (RN x)"
  using round_units_integer [of "x * 2 ^ 1074"] by (auto simp: is_unit_def RN_def)

lemma is_unit_add: "is_unit x \<Longrightarrow> is_unit y \<Longrightarrow> is_unit (x + y)"
  unfolding is_unit_def
proof -
  assume "\<exists>n::nat. x * 2 ^ 1074 = of_nat n" "\<exists>n::nat. y * 2 ^ 1074 = of_nat n"
  then obtain n m :: nat where "x * 2 ^ 1074 = of_nat n" "y * 2 ^ 1074 = of_nat m" by blast
  then have "(x + y) * 2 ^ 1074 = of_nat (n + m)" by (simp add: distrib_right)
  then show "\<exists>n::nat. (x + y) * 2 ^ 1074 = of_nat n" ..
qed

lemma is_unit_nat_mult: "is_unit x \<Longrightarrow> is_unit (of_nat c * x)"
  unfolding is_unit_def
proof -
  assume "\<exists>n::nat. x * 2 ^ 1074 = of_nat n"
  then obtain n :: nat where "x * 2 ^ 1074 = of_nat n" ..
  then have "of_nat c * x * 2 ^ 1074 = of_nat (c * n)" by (simp add: mult.assoc)
  then show "\<exists>n::nat. of_nat c * x * 2 ^ 1074 = of_nat n" ..
qed

lemma u53_bounds: "0 < u53" "u53 < 1"
  by (simp_all add: u53_def)

lemma RN_rel:
  assumes "0 \<le> x" and "is_unit x"
  shows "x * (1 - u53) \<le> RN x \<and> RN x \<le> x * (1 + u53)"
proof -
  let ?y = "x * 2 ^ 1074"
  let ?k = "ulp_exp 2045 ?y"
  from assms(2) obtain n :: nat where n: "?y = of_nat n" unfolding is_unit_def ..
  show ?thesis
  proof (cases "?k = 0")
    case True
    then have "?y < 2 ^ 53" using ulp_exp_upper [of 2045 ?y] by simp
    then have "(of_nat n :: real) < of_nat (2 ^ 53)" using n by simp
    then have "n \<le> 2 ^ 53" by (simp only: of_nat_less_iff)
    then have "round_units ?y = ?y" using round_units_exact [of n 0] n by simp
    then have "RN x = x" by (simp add: RN_def)
    then show ?thesis using assms(1) u53_bounds by (simp add: algebra_simps)
  next
    case False
    then have kpos: "0 < ?k" by simp
    have "(2::real) ^ ?k / 2 = 2 ^ (?k + 52) * u53"
      by (simp add: u53_def power_add)
    also have "\<dots> \<le> ?y * u53"
      using ulp_exp_lower [OF kpos] u53_bounds by (intro mult_right_mono) auto
    finally have "\<bar>round_units ?y - ?y\<bar> \<le> ?y * u53"
      using round_units_err [of ?y] by linarith
    then have "?y - ?y * u53 \<le> round_units ?y \<and> round_units ?y \<le> ?y + ?y * u53"
      by linarith
    then have "(x - x * u53) * 2 ^ 1074 \<le> round_units ?y
               \<and> round_units ?y \<le> (x + x * u53) * 2 ^ 1074"
      by (simp add: algebra_simps)
    then have "x - x * u53 \<le> RN x \<and> RN x \<le> x + x * u53"
      unfolding RN_def by (simp add: le_divide_eq divide_le_eq)
    then show ?thesis by (simp add: algebra_simps)
  qed
qed

lemma RN_exact_scaled: "m \<le> 2 ^ 53 \<Longrightarrow> RN (of_nat m * 2 ^ 960) = of_nat m * 2 ^ 960"
proof -
  assume m: "m \<le> 2 ^ 53"
  have "of_nat m * (2::real) ^ 960 * 2 ^ 1074 = of_nat m * 2 ^ 2034"
    by (simp add: mult.assoc power_add [symmetric])
  then show ?thesis
    unfolding RN_def using round_units_exact [OF m, of 2034]
    by (simp add: mult.assoc power_add [symmetric])
qed

lemma to_double_below_scaled:
  assumes "0 \<le> x" and "x \<le> of_nat m * 2 ^ 960" and "m \<le> 2 ^ 53"
  shows "to_double x = Fin (RN x) \<and> 0 \<le> RN x \<and> RN x \<le> of_nat m * 2 ^ 960"
proof -
  have le: "RN x \<le> of_nat m * 2 ^ 960"
    using RN_mono [OF assms(1,2)] RN_exact_scaled [OF assms(3)] by simp
  have "(of_nat m :: real) \<le> of_nat (2 ^ 53)" using assms(3) by (intro of_nat_mono)
  then have "of_nat m * (2::real) ^ 960 \<le> 2 ^ 53 * 2 ^ 960" by (intro mult_right_mono) auto
  then have "RN x \<le> 2 ^ 1013" using le by (simp add: power_add [symmetric])
  then have "round_units (x * 2 ^ 1074) \<le> 2 ^ 1013 * 2 ^ 1074"
    unfolding RN_def by (simp add: divide_le_eq)
  also have "\<dots> < (2::real) ^ 2098"
    unfolding power_add [symmetric] by (intro power_strict_increasing) auto
  finally have "\<not> 2 ^ 2098 \<le> round_units (x * 2 ^ 1074)" by simp
  then show ?thesis using le RN_nonneg [OF assms(1)] to_double_nonneg [OF assms(1)] by simp
qed

lemma fp_num_or0_duration:
  assumes "in_range a" and "num_or0 (duration_days a) \<le> 2 ^ 960"
  shows "\<exists>d. fp_num_or0 (duration_days a) = Fin d \<and> 0 \<le> d \<and> d \<le> 2 ^ 960 \<and> is_unit d"
proof (cases "duration_days a")
  case None
  then show ?thesis by (simp add: fp_num_or0_def)
next
  case (Some v)
  then have v: "0 \<le> v" "v \<le> of_nat 1 * 2 ^ 960"
    using assms by (simp_all add: in_range_def num_or0_def)
  have "to_double v = Fin (RN v) \<and> 0 \<le> RN v \<and> RN v \<le> of_nat 1 * 2 ^ 960"
    by (rule to_double_below_scaled [OF v]) simp
  then show ?thesis using Some is_unit_RN [OF v(1)] by (simp add: fp_num_or0_def)
qed

lemma fp_add_nonneg:
  assumes "0 \<le> x" and "0 \<le> y" and "is_unit x" and "is_unit y"
    and "x + y \<le> of_nat m * 2 ^ 960" and "m \<le> 2 ^ 53"
  shows "fp_add (Fin x) (Fin y) = Fin (RN (x + y)) \<and> 0 \<le> RN (x + y)
         \<and> RN (x + y) \<le> of_nat m * 2 ^ 960 \<and> is_unit (RN (x + y))
         \<and> (x + y) * (1 - u53) \<le> RN (x + y) \<and> RN (x + y) \<le> (x + y) * (1 + u53)"
proof -
  have s: "0 \<le> x + y" using assms(1,2) by simp
  have td: "to_double (x + y) = Fin (RN (x + y)) \<and> 0 \<le> RN (x + y)
            \<and> RN (x + y) \<le> of_nat m * 2 ^ 960"
    by (rule to_double_below_scaled [OF s assms(5,6)])
  have "fp_add (Fin x) (Fin y) = Fin (RN (x + y))"
    using td by (cases "x + y = 0") simp_all
  then show ?thesis
    using td is_unit_RN [OF s] RN_rel [OF s is_unit_add [OF assms(3,4)]] by simp
qed

lemma to_double_below:
  assumes "0 \<le> x" and "x \<le> of_nat m * 2 ^ j / 2 ^ 1074" and "m \<le> 2 ^ 53" and "j \<le> 2044"
  shows "to_double x = Fin (RN x) \<and> 0 \<le> RN x \<and> RN x \<le> of_nat m * 2 ^ j / 2 ^ 1074"
proof -
  let ?M = "of_nat m * (2::real) ^ j / 2 ^ 1074"
  have e: "RN ?M = ?M" unfolding RN_def using round_units_exact [OF assms(3), of j] by simp
  have le: "RN x \<le> ?M" using RN_mono [OF assms(1,2)] e by simp
  have "(of_nat m :: real) \<le> of_nat (2 ^ 53)" using assms(3) by (intro of_nat_mono)
  then have "of_nat m * (2::real) ^ j \<le> 2 ^ 53 * 2 ^ j" by (intro mult_right_mono) auto
  also have "\<dots> < (2::real) ^ 2098"
    unfolding power_add [symmetric] using assms(4) by (intro power_strict_increasing) auto
  finally have "?M * 2 ^ 1074 < 2 ^ 2098" by simp
  moreover have "round_units (x * 2 ^ 1074) \<le> ?M * 2 ^ 1074"
    using le unfolding RN_def by (simp add: divide_le_eq)
  ultimately have "\<not> 2 ^ 2098 \<le> round_units (x * 2 ^ 1074)" by linarith
  then show ?thesis using le RN_nonneg [OF assms(1)] to_double_nonneg [OF assms(1)] by simp
qed

lemma pow_1_minus_u53: "0 < (1 - u53) ^ n" "(1 - u53) ^ n \<le> 1"
  using u53_bounds by (simp_all add: power_le_one)

lemma pow_1_plus_u53: "1 \<le> (1 + u53) ^ n"
  using u53_bounds by (simp add: one_le_power)

lemma rollup_sums_double:
  assumes "list_all in_range as" and "list_all (\<lambda>a. num_or0 (duration_days a) \<le> 2 ^ 960) as"
    and "length as < 2 ^ 32"
  shows "\<exists>T W S. rollup_totalDuration_double as = Fin T \<and> rollup_weightedSum_double as = Fin W
           \<and> is_unit T \<and> is_unit W \<and> 0 \<le> S \<and> 0 \<le> T \<and> 0 \<le> W
           \<and> T \<le> of_nat (length as) * 2 ^ 960 \<and> W \<le> of_nat (100 * length as) * 2 ^ 960
           \<and> (1 - u53) ^ length as * S \<le> T \<and> T \<le> (1 + u53) ^ length as * S
           \<and> W \<le> (1 + u53) ^ (length as + 1) * (100 * S)"
  using assms
proof (induction as rule: rev_induct)
  case Nil
  show ?case
    by (rule exI [of _ 0], rule exI [of _ 0], rule exI [of _ 0])
       (simp add: rollup_totalDuration_double_def rollup_weightedSum_double_def)
next
  case (snoc a as)
  let ?n = "length as"
  from snoc.prems have ra: "in_range a" and da: "num_or0 (duration_days a) \<le> 2 ^ 960"
    and ras: "list_all in_range as"
    and das: "list_all (\<lambda>a. num_or0 (duration_days a) \<le> 2 ^ 960) as"
    and n: "Suc ?n < 2 ^ 32"
    by simp_all
  from n have n': "?n < 2 ^ 32" by simp
  from snoc.IH [OF ras das n'] obtain T W S where
    T: "rollup_totalDuration_double as = Fin T" and W: "rollup_weightedSum_double as = Fin W"
    and uT: "is_unit T" and uW: "is_unit W" and S0: "0 \<le> S" and T0: "0 \<le> T" and W0: "0 \<le> W"
    and Tb: "T \<le> of_nat ?n * 2 ^ 960" and Wb: "W \<le> of_nat (100 * ?n) * 2 ^ 960"
    and Tl: "(1 - u53) ^ ?n * S \<le> T" and Tu: "T \<le> (1 + u53) ^ ?n * S"
    and Wu: "W \<le> (1 + u53) ^ (?n + 1) * (100 * S)"
    by blast
  from fp_num_or0_duration [OF ra da] obtain d where
    d: "fp_num_or0 (duration_days a) = Fin d" "0 \<le> d" "d \<le> 2 ^ 960" "is_unit d" by blast
  from fp_num_or0_progress [OF ra] obtain p where
    p: "fp_num_or0 (progress_pct a) = Fin p" "0 \<le> p" "p \<le> 100" by blast
  have pd0: "0 \<le> p * d" using p(2) d(2) by simp
  have pd1: "p * d \<le> 100 * d" using p(3) d(2) by (intro mult_right_mono) auto
  have pd2: "p * d \<le> of_nat 100 * 2 ^ 960" using pd1 d(3) by simp
  have td: "to_double (p * d) = Fin (RN (p * d)) \<and> 0 \<le> RN (p * d)
            \<and> RN (p * d) \<le> of_nat 100 * 2 ^ 960"
    by (rule to_double_below_scaled [OF pd0 pd2]) simp
  define w where "w = RN (p * d)"
  have w: "fp_mul (Fin p) (Fin d) = Fin w" "0 \<le> w" "w \<le> 100 * 2 ^ 960" "is_unit w"
    using td p(2) d(2) is_unit_RN [OF pd0] by (simp_all add: w_def)
  have "w \<le> RN (100 * d)" unfolding w_def by (rule RN_mono [OF pd0 pd1])
  also have "\<dots> \<le> 100 * d * (1 + u53)"
  proof -
    have "is_unit (of_nat 100 * d)" by (rule is_unit_nat_mult [OF d(4)])
    then show ?thesis using RN_rel [of "100 * d"] d(2) by simp
  qed
  finally have wu: "w \<le> 100 * d * (1 + u53)" .
  have Tsum: "T + d \<le> of_nat (Suc ?n) * 2 ^ 960" using Tb d(3) by (simp add: algebra_simps)
  have nb: "Suc ?n \<le> 2 ^ 53" using n by simp
  note aT = fp_add_nonneg [OF T0 d(2) uT d(4) Tsum nb]
  have Wsum: "W + w \<le> of_nat (100 * Suc ?n) * 2 ^ 960" using Wb w(3) by (simp add: algebra_simps)
  have nb': "100 * Suc ?n \<le> 2 ^ 53" using n by simp
  note aW = fp_add_nonneg [OF W0 w(2) uW w(4) Wsum nb']
  define T' where "T' = RN (T + d)"
  define W' where "W' = RN (W + w)"
  have eT: "rollup_totalDuration_double (as @ [a]) = Fin T'"
    using aT T d(1) by (simp add: rollup_totalDuration_double_def T'_def)
  have eW: "rollup_weightedSum_double (as @ [a]) = Fin W'"
    using aW W d(1) p(1) w(1) by (simp add: rollup_weightedSum_double_def W'_def)
  have u: "0 \<le> 1 - u53" "0 \<le> 1 + u53" using u53_bounds by simp_all
  have l1: "(1 - u53) ^ Suc ?n * (S + d) \<le> T'"
  proof -
    have "(1 - u53) ^ ?n * d \<le> 1 * d"
      using pow_1_minus_u53(2) [of ?n] d(2) by (intro mult_right_mono) auto
    then have "(1 - u53) ^ ?n * (S + d) \<le> T + d" using Tl by (simp add: algebra_simps)
    then have "(1 - u53) * ((1 - u53) ^ ?n * (S + d)) \<le> (1 - u53) * (T + d)"
      using u(1) by (rule mult_left_mono)
    also have "\<dots> \<le> T'" using aT unfolding T'_def by (simp add: mult.commute)
    finally show ?thesis by (simp add: mult.assoc)
  qed
  have l2: "T' \<le> (1 + u53) ^ Suc ?n * (S + d)"
  proof -
    have "1 * d \<le> (1 + u53) ^ ?n * d"
      using pow_1_plus_u53 [of ?n] d(2) by (intro mult_right_mono) auto
    then have "T + d \<le> (1 + u53) ^ ?n * (S + d)" using Tu by (simp add: algebra_simps)
    then have "(1 + u53) * (T + d) \<le> (1 + u53) * ((1 + u53) ^ ?n * (S + d))"
      using u(2) by (rule mult_left_mono)
    moreover have "T' \<le> (1 + u53) * (T + d)" using aT unfolding T'_def by (simp add: mult.commute)
    ultimately show ?thesis by (simp add: mult.assoc)
  qed
  have l3: "W' \<le> (1 + u53) ^ (Suc ?n + 1) * (100 * (S + d))"
  proof -
    have "(1 + u53) * 1 \<le> (1 + u53) * (1 + u53) ^ ?n"
      using pow_1_plus_u53 [of ?n] u(2) by (intro mult_left_mono) auto
    then have "1 + u53 \<le> (1 + u53) ^ (?n + 1)" by simp
    then have "(1 + u53) * (100 * d) \<le> (1 + u53) ^ (?n + 1) * (100 * d)"
      using d(2) by (intro mult_right_mono) auto
    then have "w \<le> (1 + u53) ^ (?n + 1) * (100 * d)" using wu by (simp add: algebra_simps)
    then have "W + w \<le> (1 + u53) ^ (?n + 1) * (100 * (S + d))"
      using Wu by (simp add: algebra_simps)
    then have "(1 + u53) * (W + w) \<le> (1 + u53) * ((1 + u53) ^ (?n + 1) * (100 * (S + d)))"
      using u(2) by (rule mult_left_mono)
    moreover have "W' \<le> (1 + u53) * (W + w)" using aW unfolding W'_def by (simp add: mult.commute)
    ultimately show ?thesis by (simp add: mult.assoc)
  qed
  have b1: "is_unit T'" "is_unit W'" "0 \<le> T'" "0 \<le> W'"
    "T' \<le> of_nat (Suc ?n) * 2 ^ 960" "W' \<le> of_nat (100 * Suc ?n) * 2 ^ 960"
    using aT aW unfolding T'_def W'_def by simp_all
  have S': "0 \<le> S + d" using S0 d(2) by simp
  show ?case
    apply (rule exI [of _ T'], rule exI [of _ W'], rule exI [of _ "S + d"])
    using eT eW b1 S' l1 l2 l3 apply simp
    done
qed

lemma ratio_bound:
  assumes "n < 2 ^ 32"
  shows "(1 + u53) ^ (n + 1) \<le> (1 + 1 / 2 ^ 19) * (1 - u53) ^ n"
proof -
  let ?e = "1 / 2 ^ 21 :: real"
  have bern: "1 - ?e \<le> (1 - u53) ^ k" if "k \<le> 2 ^ 32" for k :: nat
  proof -
    have "(of_nat k :: real) \<le> of_nat (2 ^ 32)" using that by (intro of_nat_mono)
    then have "of_nat k * u53 \<le> 2 ^ 32 * u53" using u53_bounds by (intro mult_right_mono) auto
    also have "\<dots> = ?e" by (simp add: u53_def)
    finally have "1 - ?e \<le> 1 + of_nat k * (- u53)" by simp
    also have "\<dots> \<le> (1 + (- u53)) ^ k"
      using u53_bounds by (intro Bernoulli_inequality) auto
    finally show ?thesis by simp
  qed
  have a: "1 - ?e \<le> (1 - u53) ^ n"
    by (rule bern) (use assms in simp)
  have b: "1 - ?e \<le> (1 - u53) ^ (n + 1)"
    by (rule bern) (use assms in simp)
  have "(1 + u53) ^ (n + 1) * (1 - u53) ^ (n + 1) = ((1 + u53) * (1 - u53)) ^ (n + 1)"
    by (simp only: power_mult_distrib)
  also have "\<dots> \<le> 1"
  proof (rule power_le_one)
    show "0 \<le> (1 + u53) * (1 - u53)" using u53_bounds by simp
    have "(1 + u53) * (1 - u53) = 1 - u53 * u53" by (simp add: algebra_simps)
    then show "(1 + u53) * (1 - u53) \<le> 1" using u53_bounds by simp
  qed
  finally have c: "(1 + u53) ^ (n + 1) * (1 - u53) ^ (n + 1) \<le> 1" .
  have pos: "0 < 1 - ?e" by simp
  have "(1 + u53) ^ (n + 1) * (1 - ?e) \<le> (1 + u53) ^ (n + 1) * (1 - u53) ^ (n + 1)"
    using b u53_bounds by (intro mult_left_mono) auto
  then have "(1 + u53) ^ (n + 1) * (1 - ?e) \<le> 1" using c by linarith
  then have "(1 + u53) ^ (n + 1) \<le> 1 / (1 - ?e)" using pos by (simp add: le_divide_eq)
  also have "\<dots> \<le> (1 + 1 / 2 ^ 19) * (1 - ?e)" by simp
  also have "\<dots> \<le> (1 + 1 / 2 ^ 19) * (1 - u53) ^ n"
    using a by (intro mult_left_mono) auto
  finally show ?thesis .
qed

lemma rollup_avgProgress_double_bounds:
  assumes "list_all in_range as" and "list_all (\<lambda>a. num_or0 (duration_days a) \<le> 2 ^ 960) as"
    and "length as < 2 ^ 32"
  shows "\<exists>x. rollup_avgProgress_double as = Fin x \<and> 0 \<le> x \<and> x \<le> 100 + 100 / 2 ^ 19"
proof -
  let ?n = "length as"
  from rollup_sums_double [OF assms] obtain T W S where
    T: "rollup_totalDuration_double as = Fin T" and W: "rollup_weightedSum_double as = Fin W"
    and S0: "0 \<le> S" and T0: "0 \<le> T" and W0: "0 \<le> W"
    and Tl: "(1 - u53) ^ ?n * S \<le> T"
    and Wu: "W \<le> (1 + u53) ^ (?n + 1) * (100 * S)"
    by blast
  show ?thesis
  proof (cases "0 < T")
    case False
    then show ?thesis using T by (simp add: rollup_avgProgress_double_def)
  next
    case True
    have "(1 + u53) ^ (?n + 1) * (100 * S) \<le> (1 + 1 / 2 ^ 19) * (1 - u53) ^ ?n * (100 * S)"
      using ratio_bound [OF assms(3)] S0 by (intro mult_right_mono) auto
    also have "\<dots> = (100 + 100 / 2 ^ 19) * ((1 - u53) ^ ?n * S)" by (simp add: algebra_simps)
    also have "\<dots> \<le> (100 + 100 / 2 ^ 19) * T" using Tl by (intro mult_left_mono) auto
    finally have "W \<le> (100 + 100 / 2 ^ 19) * T" using Wu by linarith
    then have q: "W / T \<le> 100 + 100 / 2 ^ 19" using True by (simp add: divide_le_eq)
    have q0: "0 \<le> W / T" using W0 T0 by simp
    have q': "W / T \<le> of_nat 52428900 * 2 ^ 1055 / 2 ^ 1074" using q by simp
    have "to_double (W / T) = Fin (RN (W / T)) \<and> 0 \<le> RN (W / T)
          \<and> RN (W / T) \<le> of_nat 52428900 * 2 ^ 1055 / 2 ^ 1074"
      by (rule to_double_below [OF q0 q']) simp_all
    then have "to_double (W / T) = Fin (RN (W / T)) \<and> 0 \<le> RN (W / T)
          \<and> RN (W / T) \<le> 100 + 100 / 2 ^ 19"
      by simp
    then show ?thesis using T W True W0 by (simp add: rollup_avgProgress_double_def)
  qed
qed


lemma fp_Math_round_bounds:
  assumes "0 \<le> x" and "x \<le> 100 + 100 / 2 ^ 19"
  shows "\<exists>r. fp_Math_round (Fin x) = Fin r \<and> 0 \<le> r \<and> r \<le> 100"
proof -
  have "\<lfloor>x + 1 / 2\<rfloor> \<le> 100" using assms(2) by (simp add: floor_le_iff)
  moreover have "0 \<le> \<lfloor>x + 1 / 2\<rfloor>" using assms(1) by (simp add: le_floor_iff)
  ultimately have "0 \<le> (of_int \<lfloor>x + 1 / 2\<rfloor> :: real) \<and> (of_int \<lfloor>x + 1 / 2\<rfloor> :: real) \<le> 100"
    by simp
  then show ?thesis using assms(1) by (simp add: fp_Math_round_def)
qed

subsection \<open>The two averages at concrete inputs\<close>

lemma to_double_100: "to_double 100 = Fin 100"
  using to_double_below_nat [of 100 100] RN_exact_nat [of 100] by simp

lemma to_double_69: "to_double 69 = Fin 69"
  using to_double_below_nat [of 69 69] RN_exact_nat [of 69] by simp

lemma to_double_069: "to_double (69 / 100) = Fin (6214967485771284 / 2 ^ 53)"
proof -
  have "to_double (69 / 100) = Fin (of_int 6214967485771284 * 2 ^ 1021 / 2 ^ 1074)"
    by (rule to_double_eval) (simp_all add: round_even_def)
  then show ?thesis by simp
qed

lemma avg_double_above_100:
  "rollup_avgProgress_double [ex_activity ''T1'' ''W1'' (69 / 100) 100 None None] = Fin (100 + 1 / 2 ^ 46)"
proof -
  let ?d = "6214967485771284 / 2 ^ 53 :: real"
  have d: "fp_num_or0 (Some (69 / 100)) = Fin ?d" and p: "fp_num_or0 (Some 100) = Fin 100"
    by (simp_all add: fp_num_or0_def to_double_069 to_double_100)
  have dd: "to_double ?d = Fin ?d"
    using to_double_exact [of 6214967485771284 1021] by simp
  have w: "to_double (100 * ?d) = Fin 69"
  proof -
    have "to_double (100 * ?d) = Fin (of_int 4855443348258816 * 2 ^ 1028 / 2 ^ 1074)"
      by (rule to_double_eval) (simp_all add: round_even_def)
    then show ?thesis by simp
  qed
  have q: "to_double (69 / ?d) = Fin (100 + 1 / 2 ^ 46)"
  proof -
    have "to_double (69 / ?d) = Fin (of_int 7036874417766401 * 2 ^ 1028 / 2 ^ 1074)"
      by (rule to_double_eval) (simp_all add: round_even_def)
    then show ?thesis by simp
  qed
  have t: "rollup_totalDuration_double [ex_activity ''T1'' ''W1'' (69 / 100) 100 None None] = Fin ?d"
    using d dd by (simp add: rollup_totalDuration_double_def ex_activity_def)
  have "rollup_weightedSum_double [ex_activity ''T1'' ''W1'' (69 / 100) 100 None None] = Fin 69"
    using d p w to_double_69 by (simp add: rollup_weightedSum_double_def ex_activity_def)
  then show ?thesis
    using t q by (simp add: rollup_avgProgress_double_def)
qed

lemma to_double_1e307: "to_double (10 ^ 307) = Fin (8016673440035891 * 2 ^ 2041 / 2 ^ 1074)"
proof -
  have "to_double (10 ^ 307) = Fin (of_int 8016673440035891 * 2 ^ 2041 / 2 ^ 1074)"
    by (rule to_double_eval) (simp_all add: round_even_def)
  then show ?thesis by simp
qed

lemma avg_double_infinite:
  "fp_Math_round (rollup_avgProgress_double [ex_activity ''T1'' ''W1'' (10 ^ 307) 100 None None]) = PosInf"
proof -
  let ?d = "8016673440035891 * 2 ^ 2041 / 2 ^ 1074 :: real"
  have d: "fp_num_or0 (Some (10 ^ 307)) = Fin ?d"
    using to_double_1e307 by (simp add: fp_num_or0_def)
  have p: "fp_num_or0 (Some 100) = Fin 100"
    by (simp add: fp_num_or0_def to_double_100)
  have dd: "to_double ?d = Fin ?d"
    using to_double_exact [of 8016673440035891 2041] by simp
  have w: "to_double (100 * ?d) = PosInf"
    by (rule to_double_overflow) simp
  have t: "rollup_totalDuration_double [ex_activity ''T1'' ''W1'' (10 ^ 307) 100 None None] = Fin ?d"
    using d dd by (simp add: rollup_totalDuration_double_def ex_activity_def)
  have "rollup_weightedSum_double [ex_activity ''T1'' ''W1'' (10 ^ 307) 100 None None] = PosInf"
    using d p w by (simp add: rollup_weightedSum_double_def ex_activity_def fp_add_def is_inf_def)
  then show ?thesis
    using t by (simp add: rollup_avgProgress_double_def fp_div_def is_inf_def is_neg_def
                  fp_signed_def fp_Math_round_def)
qed

subsection \<open>The range of the average progress\<close>

text \<open>
  C10, as the code has it. Take a list of fewer than \<open>2 ^ 32\<close> activities (the length of a
  JavaScript array) in which every progress lies within 0..100 and every duration is
  non-negative, the numbers being those of the JSON literals. The unweighted mean that
  calculateWBSStats computes is a double within 0..100, and so is its rounded value. The
  duration-weighted mean that calculateWBSRollups computes can exceed 100 by the rounding of
  the sums, the products and the quotient: when no duration exceeds \<open>2 ^ 960\<close> days it is a
  double between 0 and \<open>100 + 100 / 2 ^ 19\<close>, and the rounded value that the WBS node stores
  is a double within 0..100.
\<close>

theorem avgProgress_bounds_in_doubles:
  assumes "list_all in_range as" and "length as < 2 ^ 32"
  shows "(\<exists>x r. stats_avgProgress_double as = Fin x \<and> 0 \<le> x \<and> x \<le> 100
              \<and> stats_progress_pct_double as = Fin r \<and> 0 \<le> r \<and> r \<le> 100)
       \<and> (list_all (\<lambda>a. num_or0 (duration_days a) \<le> 2 ^ 960) as \<longrightarrow>
            (\<exists>x r. rollup_avgProgress_double as = Fin x \<and> 0 \<le> x \<and> x \<le> 100 + 100 / 2 ^ 19
                 \<and> rollup_progress_pct_double as = Fin r \<and> 0 \<le> r \<and> r \<le> 100))"
proof (intro conjI impI)
  from stats_avgProgress_double_bounds [OF assms] obtain x where
    x: "stats_avgProgress_double as = Fin x" "0 \<le> x" "x \<le> 100" by blast
  from fp_Math_round_bounds [of x] x(2,3) obtain r where
    r: "fp_Math_round (Fin x) = Fin r" "0 \<le> r" "r \<le> 100" by auto
  show "\<exists>x r. stats_avgProgress_double as = Fin x \<and> 0 \<le> x \<and> x \<le> 100
              \<and> stats_progress_pct_double as = Fin r \<and> 0 \<le> r \<and> r \<le> 100"
    using x r by (auto simp: stats_progress_pct_double_def)
next
  assume d: "list_all (\<lambda>a. num_or0 (duration_days a) \<le> 2 ^ 960) as"
  from rollup_avgProgress_double_bounds [OF assms(1) d assms(2)] obtain x where
    x: "rollup_avgProgress_double as = Fin x" "0 \<le> x" "x \<le> 100 + 100 / 2 ^ 19" by blast
  from fp_Math_round_bounds [OF x(2,3)] obtain r where
    r: "fp_Math_round (Fin x) = Fin r" "0 \<le> r" "r \<le> 100" by auto
  have "rollup_progress_pct_double as = Fin (if as = [] then 0 else r)"
    using x(1) r(1) by (simp add: rollup_progress_pct_double_def)
  then show "\<exists>x r. rollup_avgProgress_double as = Fin x \<and> 0 \<le> x \<and> x \<le> 100 + 100 / 2 ^ 19
                 \<and> rollup_progress_pct_double as = Fin r \<and> 0 \<le> r \<and> r \<le> 100"
    using x r by auto
qed

text \<open>Two activities, of durations 1 and 2 and progress 100 and 50.\<close>

theorem avgProgress_bounds_in_doubles_witness:
  "list_all in_range [ex_activity ''T1'' ''W1'' 1 100 None None,
                      ex_activity ''T2'' ''W1'' 2 50 None None]
   \<and> length [ex_activity ''T1'' ''W1'' 1 100 None None,
             ex_activity ''T2'' ''W1'' 2 50 None None] < 2 ^ 32
   \<and> list_all (\<lambda>a. num_or0 (duration_days a) \<le> 2 ^ 960)
        [ex_activity ''T1'' ''W1'' 1 100 None None, ex_activity ''T2'' ''W1'' 2 50 None None]
   \<and> (\<exists>x. stats_avgProgress_double [ex_activity ''T1'' ''W1'' 1 100 None None,
                                      ex_activity ''T2'' ''W1'' 2 50 None None] = Fin x
          \<and> x \<le> 100)
   \<and> (\<exists>r. rollup_progress_pct_double [ex_activity ''T1'' ''W1'' 1 100 None None,
                                        ex_activity ''T2'' ''W1'' 2 50 None None] = Fin r
          \<and> r \<le> 100)"
proof -
  let ?as = "[ex_activity ''T1'' ''W1'' 1 100 None None, ex_activity ''T2'' ''W1'' 2 50 None None]"
  have h1: "list_all in_range ?as"
    by (simp add: in_range_def num_or0_def)
  have h2: "length ?as < 2 ^ 32" by simp
  have h3: "list_all (\<lambda>a. num_or0 (duration_days a) \<le> 2 ^ 960) ?as"
    by (simp add: num_or0_def)
  note t = avgProgress_bounds_in_doubles [OF h1 h2]
  have 1: "\<exists>x. stats_avgProgress_double ?as = Fin x \<and> x \<le> 100"
    using t [THEN conjunct1] by blast
  have 2: "\<exists>r. rollup_progress_pct_double ?as = Fin r \<and> r \<le> 100"
    using t [THEN conjunct2, THEN mp, OF h3] by blast
  from h1 h2 h3 1 2 show ?thesis by (intro conjI)
qed

text \<open>
  The claim as stated fails for the weighted mean. One activity of progress 100 and duration
  0.69: the duration is read as the double nearest to 0.69, the product with 100 rounds to
  69, and the quotient of 69 by that double rounds to the double next above 100. One
  activity of progress 100 and duration \<open>10 ^ 307\<close>: the product overflows, and both the
  average and the rounded value stored on the node are the positive infinity.
\<close>

theorem avgProgress_exceeds_100_counterexample:
  "list_all in_range [ex_activity ''T1'' ''W1'' (69 / 100) 100 None None]
   \<and> rollup_avgProgress_double [ex_activity ''T1'' ''W1'' (69 / 100) 100 None None]
       = Fin (100 + 1 / 2 ^ 46)
   \<and> list_all in_range [ex_activity ''T1'' ''W1'' (10 ^ 307) 100 None None]
   \<and> rollup_progress_pct_double [ex_activity ''T1'' ''W1'' (10 ^ 307) 100 None None] = PosInf"
proof -
  have 1: "list_all in_range [ex_activity ''T1'' ''W1'' (69 / 100) 100 None None]"
    by (simp add: in_range_def num_or0_def)
  have 2: "list_all in_range [ex_activity ''T1'' ''W1'' (10 ^ 307) 100 None None]"
    by (simp add: in_range_def num_or0_def)
  have 3: "rollup_progress_pct_double [ex_activity ''T1'' ''W1'' (10 ^ 307) 100 None None] = PosInf"
    using avg_double_infinite by (simp add: rollup_progress_pct_double_def)
  from 1 avg_double_above_100 2 3 show ?thesis by (intro conjI)
qed

section \<open>Properties of the bar layout\<close>

lemma projectTimeline_totalDays:
  assumes "projectTimeline acts = Some tline"
    and "tl_start tline = DateAt t0" and "tl_end tline = DateAt t1"
  shows "totalDays tline = js_ceil (real_of_int (t1 - t0) / real_of_int day_ms)"
  using assms
  by (auto simp: projectTimeline_def Let_def days_between_def split: if_splits option.splits)

lemma bar_of_positive_span:
  assumes "totalDays tline = Fin d" "0 < d"
    and that: "(if bt = Planned then p_s else a_s) = Some (DateAt s)"
      "(if bt = Planned then p_e else a_e) = Some (DateAt e)"
  shows "\<exists>l w. calculateBarStyle (Some tline) p_s p_e a_s a_e bt = Bar l (Fin w)
               \<and> 1 / 2 \<le> w \<and> (s = e \<longrightarrow> w = 1 / 2)"
proof -
  define x where "x = real_of_int (e - s) / real_of_int day_ms / d * 100"
  have eq: "bar_width (calculateBarStyle (Some tline) p_s p_e a_s a_e bt) = Fin (max x (1 / 2))
            \<and> calculateBarStyle (Some tline) p_s p_e a_s a_e bt \<noteq> DisplayNone"
    using assms unfolding x_def
    by (simp add: calculateBarStyle_def Let_def days_between_def js_div_def js_times_def
          js_max_def split: option.splits)
  have "s = e \<Longrightarrow> max x (1 / 2) = 1 / 2" by (simp add: x_def)
  moreover have "1 / 2 \<le> max x (1 / 2)" by simp
  ultimately show ?thesis using eq
    by (cases "calculateBarStyle (Some tline) p_s p_e a_s a_e bt") auto
qed

lemma bar_of_invalid_date:
  "bar_width (calculateBarStyle (Some tline) (Some InvalidDate) (Some d) a_s a_e Planned) = NaN"
  "bar_width (calculateBarStyle (Some tline) (Some d) (Some InvalidDate) a_s a_e Planned) = NaN"
  "bar_width (calculateBarStyle (Some tline) p_s p_e (Some InvalidDate) (Some d) Actual) = NaN"
  "bar_width (calculateBarStyle (Some tline) p_s p_e (Some d) (Some InvalidDate) Actual) = NaN"
  by (simp_all add: calculateBarStyle_def Let_def days_between_def split: jsdate.splits)

text \<open>
  C9, as the code has it. Take a timeline computed from the activities whose window start
  and end are valid dates, the start before the end. A node whose two dates of the requested
  kind are both valid dates gets a bar whose width is a number of at least 0.5 (percent of
  the timeline span), and exactly 0.5 when the two dates are equal. A node one of whose two
  dates is \<^verbatim>\<open>null\<close> gets no bar. A date that is present but invalid (a string that does not
  parse) is not taken as missing: the node gets a bar, and the width of that bar is NaN.
\<close>

theorem bar_width_at_least_half_percent:
  assumes "projectTimeline activities = Some tline"
    and "tl_start tline = DateAt t0" and "tl_end tline = DateAt t1" and "t0 < t1"
  shows "(\<exists>l w. calculateBarStyle (Some tline) (Some (DateAt s)) (Some (DateAt e)) a_s a_e Planned
                  = Bar l (Fin w) \<and> 1 / 2 \<le> w \<and> (s = e \<longrightarrow> w = 1 / 2))
       \<and> (\<exists>l w. calculateBarStyle (Some tline) p_s p_e (Some (DateAt s)) (Some (DateAt e)) Actual
                  = Bar l (Fin w) \<and> 1 / 2 \<le> w \<and> (s = e \<longrightarrow> w = 1 / 2))
       \<and> calculateBarStyle (Some tline) None p_e a_s a_e Planned = DisplayNone
       \<and> calculateBarStyle (Some tline) p_s None a_s a_e Planned = DisplayNone
       \<and> calculateBarStyle (Some tline) p_s p_e None a_e Actual = DisplayNone
       \<and> calculateBarStyle (Some tline) p_s p_e a_s None Actual = DisplayNone
       \<and> bar_width (calculateBarStyle (Some tline) (Some InvalidDate) (Some d) a_s a_e Planned) = NaN
       \<and> bar_width (calculateBarStyle (Some tline) (Some d) (Some InvalidDate) a_s a_e Planned) = NaN
       \<and> bar_width (calculateBarStyle (Some tline) p_s p_e (Some InvalidDate) (Some d) Actual) = NaN
       \<and> bar_width (calculateBarStyle (Some tline) p_s p_e (Some d) (Some InvalidDate) Actual) = NaN"
proof -
  have "0 < real_of_int (t1 - t0) / real_of_int day_ms"
    using assms(4) by (simp add: day_ms_def)
  then obtain dd where dd: "totalDays tline = Fin dd" "0 < dd"
    using projectTimeline_totalDays [OF assms(1,2,3)] by (simp add: js_ceil_def)
  have planned: "\<exists>l w. calculateBarStyle (Some tline) (Some (DateAt s)) (Some (DateAt e)) a_s a_e Planned
                         = Bar l (Fin w) \<and> 1 / 2 \<le> w \<and> (s = e \<longrightarrow> w = 1 / 2)"
    using bar_of_positive_span [OF dd, of Planned "Some (DateAt s)" a_s s "Some (DateAt e)" a_e e]
    by simp
  have actual: "\<exists>l w. calculateBarStyle (Some tline) p_s p_e (Some (DateAt s)) (Some (DateAt e)) Actual
                        = Bar l (Fin w) \<and> 1 / 2 \<le> w \<and> (s = e \<longrightarrow> w = 1 / 2)"
    using bar_of_positive_span [OF dd, of Actual p_s "Some (DateAt s)" s p_e "Some (DateAt e)" e]
    by simp
  have none: "calculateBarStyle (Some tline) None p_e a_s a_e Planned = DisplayNone"
    "calculateBarStyle (Some tline) p_s None a_s a_e Planned = DisplayNone"
    "calculateBarStyle (Some tline) p_s p_e None a_e Actual = DisplayNone"
    "calculateBarStyle (Some tline) p_s p_e a_s None Actual = DisplayNone"
    by (simp_all add: calculateBarStyle_def split: option.splits)
  have inv:
    "bar_width (calculateBarStyle (Some tline) (Some InvalidDate) (Some d) a_s a_e Planned) = NaN"
    "bar_width (calculateBarStyle (Some tline) (Some d) (Some InvalidDate) a_s a_e Planned) = NaN"
    "bar_width (calculateBarStyle (Some tline) p_s p_e (Some InvalidDate) (Some d) Actual) = NaN"
    "bar_width (calculateBarStyle (Some tline) p_s p_e (Some d) (Some InvalidDate) Actual) = NaN"
    by (rule bar_of_invalid_date)+
  show ?thesis
    using planned actual none inv by blast
qed

text \<open>A ten-day activity gives a 70-day window; a milestone on day 5 gets the minimum width.\<close>

theorem bar_width_at_least_half_percent_witness:
  "projectTimeline [ex_activity ''T1'' ''W1'' 10 0 (Some 0) (Some (10 * day_ms))]
     = Some \<lparr>tl_start = DateAt (- (30 * day_ms)), tl_end = DateAt (40 * day_ms),
             projectStart = DateAt 0, projectEnd = DateAt (10 * day_ms), totalDays = Fin 70\<rparr>
   \<and> - (30 * day_ms) < 40 * day_ms
   \<and> bar_width (calculateBarStyle
        (Some \<lparr>tl_start = DateAt (- (30 * day_ms)), tl_end = DateAt (40 * day_ms),
               projectStart = DateAt 0, projectEnd = DateAt (10 * day_ms), totalDays = Fin 70\<rparr>)
        (Some (DateAt (5 * day_ms))) (Some (DateAt (5 * day_ms))) None None Planned) = Fin (1 / 2)
   \<and> calculateBarStyle
        (Some \<lparr>tl_start = DateAt (- (30 * day_ms)), tl_end = DateAt (40 * day_ms),
               projectStart = DateAt 0, projectEnd = DateAt (10 * day_ms), totalDays = Fin 70\<rparr>)
        None (Some (DateAt (5 * day_ms))) None None Planned = DisplayNone"
proof -
  let ?t = "\<lparr>tl_start = DateAt (- (30 * day_ms)), tl_end = DateAt (40 * day_ms),
             projectStart = DateAt 0, projectEnd = DateAt (10 * day_ms), totalDays = Fin 70\<rparr>"
  have h1: "projectTimeline [ex_activity ''T1'' ''W1'' 10 0 (Some 0) (Some (10 * day_ms))] = Some ?t"
    by (simp add: projectTimeline_def Let_def has_both_dates_def truthy_date_def getTime_def
          day_ms_def js_ceil_def js_Date_def date_plus_def days_between_def)
  have h2: "tl_start ?t = DateAt (- (30 * day_ms))" and h3: "tl_end ?t = DateAt (40 * day_ms)"
    by simp_all
  have h4: "- (30 * day_ms) < 40 * day_ms"
    by (simp add: day_ms_def)
  note t = bar_width_at_least_half_percent
             [OF h1 h2 h3 h4, of "5 * day_ms" "5 * day_ms" None None None "Some (DateAt (5 * day_ms))"]
  from t obtain l w where
    "calculateBarStyle (Some ?t) (Some (DateAt (5 * day_ms))) (Some (DateAt (5 * day_ms))) None None
       Planned = Bar l (Fin w)" "w = 1 / 2"
    by blast
  then have "bar_width (calculateBarStyle (Some ?t) (Some (DateAt (5 * day_ms)))
               (Some (DateAt (5 * day_ms))) None None Planned) = Fin (1 / 2)"
    by simp
  moreover have "calculateBarStyle (Some ?t) None (Some (DateAt (5 * day_ms))) None None Planned
                   = DisplayNone"
    using t by blast
  ultimately show ?thesis using h1 h4 by simp
qed

text \<open>
  The claim as stated fails in two ways. When the window has no length: an activity whose
  early end lies 60 days before its early start gives a window that starts and ends on day 30
  and spans 0 days; the activity was started and finished on day 30, so the bar of its actual
  dates lies inside the window, and its width is 0 / 0, not a number. And when a date is
  present but not usable: in the 70-day window of a ten-day activity, a node whose start is an
  Invalid Date is positioned all the same, with a left edge and a width that are not numbers.
\<close>

theorem bar_width_counterexample:
  "projectTimeline [ex_inverted]
     = Some \<lparr>tl_start = DateAt (30 * day_ms), tl_end = DateAt (30 * day_ms),
             projectStart = DateAt (60 * day_ms), projectEnd = DateAt 0, totalDays = Fin 0\<rparr>
   \<and> actual_start (gantt_activityNode 1 ex_inverted) = Some (DateAt (30 * day_ms))
   \<and> actual_end (gantt_activityNode 1 ex_inverted) = Some (DateAt (30 * day_ms))
   \<and> calculateBarStyle (projectTimeline [ex_inverted])
        (planned_start (gantt_activityNode 1 ex_inverted))
        (planned_end (gantt_activityNode 1 ex_inverted))
        (actual_start (gantt_activityNode 1 ex_inverted))
        (actual_end (gantt_activityNode 1 ex_inverted)) Actual
     = Bar NaN NaN
   \<and> calculateBarStyle
        (projectTimeline [ex_activity ''T1'' ''W1'' 10 0 (Some 0) (Some (10 * day_ms))])
        (Some InvalidDate) (Some (DateAt (5 * day_ms))) None None Planned
     = Bar NaN NaN"
  by (simp add: projectTimeline_def Let_def has_both_dates_def truthy_date_def getTime_def
        day_ms_def js_ceil_def calculateBarStyle_def days_between_def js_div_def js_times_def
        js_max_def ex_inverted_def gantt_activityNode_def js_Date_def date_plus_def)

section \<open>Properties of the hierarchy builders\<close>

subsection \<open>Sorting, the shared map, the loops and the shape of the output\<close>



lemma mset_insert_by [simp]: "mset (insert_by cmp x xs) = add_mset x (mset xs)"
  by (induction xs) auto

lemma mset_js_sort [simp]: "mset (js_sort cmp xs) = mset xs"
  unfolding js_sort_def by (induction xs) auto

lemma set_js_sort [simp]: "set (js_sort cmp xs) = set xs"
  by (metis mset_js_sort set_mset_mset)

lemma length_js_sort [simp]: "length (js_sort cmp xs) = length xs"
  by (metis mset_js_sort size_mset)

lemma bucket_eq_refl [simp]: "bucket_eq m m"
  by (simp add: bucket_eq_def)

lemma bucket_eq_trans: "bucket_eq m1 m2 \<Longrightarrow> bucket_eq m2 m3 \<Longrightarrow> bucket_eq m1 m3"
  by (simp add: bucket_eq_def)

lemma bucket_eq_sort [simp]: "bucket_eq m (sort_in_place cmp m k)"
  by (auto simp: bucket_eq_def sort_in_place_def get_or_empty_def split: option.splits)

lemma bucket_eq_length: "bucket_eq m m' \<Longrightarrow> length (get_or_empty m' k) = length (get_or_empty m k)"
  by (metis bucket_eq_def size_mset)

lemma bucket_eq_set: "bucket_eq m m' \<Longrightarrow> set (get_or_empty m' k) = set (get_or_empty m k)"
  by (metis bucket_eq_def set_mset_mset)

lemma forEach_st_blocks:
  assumes "forEach_st body xs s = Some (out, s')" and "I s"
    and "\<And>x t ou t'. x \<in> set xs \<Longrightarrow> I t \<Longrightarrow> body x t = Some (ou, t') \<Longrightarrow> I t' \<and> P x ou"
  shows "I s' \<and> (\<exists>blocks. out = concat blocks \<and> list_all2 P xs blocks)"
  using assms
proof (induction xs arbitrary: s out)
  case Nil
  then show ?case by simp
next
  case (Cons x xs)
  from Cons.prems(1) obtain o1 s1 o2 where
    b: "body x s = Some (o1, s1)" and r: "forEach_st body xs s1 = Some (o2, s')" and o: "out = o1 @ o2"
    by (auto split: option.splits)
  have 1: "I s1 \<and> P x o1" using Cons.prems(3)[of x s o1 s1] Cons.prems(2) b by simp
  have "I s' \<and> (\<exists>blocks. o2 = concat blocks \<and> list_all2 P xs blocks)"
  proof (rule Cons.IH[OF r])
    show "I s1" using 1 by simp
  next
    fix y t ou t' assume "y \<in> set xs" "I t" "body y t = Some (ou, t')"
    then show "I t' \<and> P y ou" using Cons.prems(3)[of y t ou t'] by simp
  qed
  then obtain blocks where "I s'" "o2 = concat blocks" "list_all2 P xs blocks" by blast
  then have "out = concat (o1 # blocks) \<and> list_all2 P (x # xs) (o1 # blocks)"
    using o 1 by simp
  then show ?case using \<open>I s'\<close> by blast
qed

lemma forEach_st_not_None:
  assumes "\<And>x t. x \<in> set xs \<Longrightarrow> body x t \<noteq> None"
  shows "forEach_st body xs s \<noteq> None"
  using assms
proof (induction xs arbitrary: s)
  case Nil then show ?case by simp
next
  case (Cons x xs)
  then obtain o1 s1 where "body x s = Some (o1, s1)" by (metis list.set_intros(1) not_Some_eq surj_pair)
  moreover have "forEach_st body xs s1 \<noteq> None" using Cons by simp
  ultimately show ?case by (auto split: option.splits)
qed

lemma flatMap_opt_not_None:
  assumes "\<And>x. x \<in> set xs \<Longrightarrow> f x \<noteq> None"
  shows "flatMap_opt f xs \<noteq> None"
  using assms by (induction xs) (auto split: option.splits)

lemma rank_bound: "w \<in> set wbs \<Longrightarrow> rank (wbs_id w) \<le> sum_list (map (\<lambda>w. rank (wbs_id w)) wbs)" for rank :: "string \<Rightarrow> nat"
  by (induction wbs) auto

lemma buildWBSTree_item_not_None:
  assumes "descendants abw (wbs_id w) \<noteq> None"
    and "\<And>l m. recur (Some (wbs_id w)) l m \<noteq> None"
  shows "buildWBSTree_item recur descendants e p l w abw \<noteq> None"
  using assms(1) assms(2)[of "Suc l" "sort_in_place ap_activity_cmp abw (wbs_id w)"]
    assms(2)[of "Suc l" abw]
  by (auto simp: buildWBSTree_item_def Let_def split: option.splits)

lemma flatMap_opt_mono:
  assumes "flatMap_opt f xs = Some r" "\<And>x y. x \<in> set xs \<Longrightarrow> f x = Some y \<Longrightarrow> g x = Some y"
  shows "flatMap_opt g xs = Some r"
  using assms by (induction xs arbitrary: r) (auto split: option.splits)

lemma forEach_st_mono:
  assumes "forEach_st f xs s = Some r" "\<And>x t y. x \<in> set xs \<Longrightarrow> f x t = Some y \<Longrightarrow> g x t = Some y"
  shows "forEach_st g xs s = Some r"
  using assms 
proof (induction xs arbitrary: r s)
  case Nil then show ?case by simp
next
  case (Cons x xs)
  from Cons.prems(1) obtain o1 s1 o2 s2 where
    b: "f x s = Some (o1, s1)" and r: "forEach_st f xs s1 = Some (o2, s2)" and o: "r = (o1 @ o2, s2)"
    by (auto split: option.splits)
  have "g x s = Some (o1, s1)" using Cons.prems(2) b by simp
  moreover have "forEach_st g xs s1 = Some (o2, s2)" using Cons.IH[OF r] Cons.prems(2) by simp
  ultimately show ?case using o by simp
qed

lemma descendants_mono:
  "getAllDescendantActivities f m wbs x = Some r \<Longrightarrow> getAllDescendantActivities (Suc f) m wbs x = Some r"
proof (induction f arbitrary: x r)
  case 0 then show ?case by simp
next
  case (Suc f)
  from Suc.prems obtain ch where
    ch: "flatMap_opt (\<lambda>c. getAllDescendantActivities f m wbs (wbs_id c)) (filter (\<lambda>w. parent_wbs_id w = Some x) wbs) = Some ch"
    and r: "r = get_or_empty m x @ ch"
    by (auto simp: Let_def split: option.splits)
  have "flatMap_opt (\<lambda>c. getAllDescendantActivities (Suc f) m wbs (wbs_id c)) (filter (\<lambda>w. parent_wbs_id w = Some x) wbs) = Some ch"
    by (rule flatMap_opt_mono[OF ch]) (use Suc.IH in blast)
  then show ?case using r by (simp add: getAllDescendantActivities.simps(2)[of "Suc f"] Let_def del: getAllDescendantActivities.simps)
qed

lemma buildWBSTree_item_mono:
  assumes "buildWBSTree_item recur descendants e p l w abw = Some r"
    and "\<And>m y. descendants m (wbs_id w) = Some y \<Longrightarrow> descendants' m (wbs_id w) = Some y"
    and "\<And>q l m y. recur q l m = Some y \<Longrightarrow> recur' q l m = Some y"
  shows "buildWBSTree_item recur' descendants' e p l w abw = Some r"
  using assms(1) 
  by (auto simp: buildWBSTree_item_def Let_def split: option.splits if_splits dest!: assms(2,3))

lemma buildWBSTree_mono:
  "buildWBSTree f wbs pinfo e p l m = Some r \<Longrightarrow> buildWBSTree (Suc f) wbs pinfo e p l m = Some r"
proof (induction f arbitrary: p l m r)
  case 0 then show ?case by simp
next
  case (Suc f)
  have "forEach_st (buildWBSTree_item (buildWBSTree (Suc f) wbs pinfo e)
              (\<lambda>abw. getAllDescendantActivities (Suc f) abw wbs) e p l)
           (js_sort (\<lambda>a b. localeCompare (wbs_name a) (wbs_name b))
                          (filter (ap_is_child pinfo p) wbs)) m = Some r"
    apply (rule forEach_st_mono[where f = "buildWBSTree_item (buildWBSTree f wbs pinfo e)
              (\<lambda>abw. getAllDescendantActivities f abw wbs) e p l"])
    using Suc.prems apply (simp add: Let_def)
    apply (erule buildWBSTree_item_mono)
     apply (erule descendants_mono)
    apply (erule Suc.IH)
    done
  then show ?case by (simp add: Let_def buildWBSTree.simps(2)[of "Suc f"] del: buildWBSTree.simps)
qed

lemma buildWBSTree_mono_le:
  "buildWBSTree f wbs pinfo e p l m = Some r \<Longrightarrow> f \<le> f' \<Longrightarrow> buildWBSTree f' wbs pinfo e p l m = Some r"
  by (induction f' ) (auto simp: le_Suc_eq dest: buildWBSTree_mono simp del: buildWBSTree.simps)

lemma ap_wbsNode_sel [simp]:
  "h_type (ap_wbsNode e p l w d st) = WbsT"
  "h_wbs_id (ap_wbsNode e p l w d st) = Some (wbs_id w)"
  "h_id (ap_wbsNode e p l w d st) = ''wbs-'' @ wbs_id w"
  "h_children (ap_wbsNode e p l w d st) = Some (length d)"
  "h_level (ap_wbsNode e p l w d st) = l"
  "h_expanded (ap_wbsNode e p l w d st) = Some (Set_has e (wbs_id w))"
  "h_parent (ap_wbsNode e p l w d st) = Some (ap_parent_of p)"
  by (simp_all add: ap_wbsNode_def ap_parent_of_def)

lemma ap_activityNode_sel [simp]:
  "h_type (ap_activityNode l k a) = ActivityT"
  "h_parent (ap_activityNode l k a) = Some k"
  "h_level (ap_activityNode l k a) = l"
  "h_activity (ap_activityNode l k a) = Some a"
  "h_id (ap_activityNode l k a) = task_id a"
  by (simp_all add: ap_activityNode_def)

lemma ap_closed_concat:
  assumes "\<And>b. b \<in> set blocks \<Longrightarrow> ap_closed wbs e bs b"
  shows "ap_closed wbs e bs (concat blocks)"
  unfolding ap_closed_def
proof (intro ballI allI impI)
  fix n k assume n: "n \<in> set (concat blocks)" and k: "h_type n = WbsT \<and> h_wbs_id n = Some k"
  then obtain b where b: "b \<in> set blocks" "n \<in> set b" by auto
  have sub: "set b \<subseteq> set (concat blocks)" using b by auto
  from assms[OF b(1)] b(2) k 
  have 1: "\<forall>w\<in>set wbs. parent_wbs_id w = Some k
            \<longrightarrow> (\<exists>n'\<in>set b. h_type n' = WbsT \<and> h_wbs_id n' = Some (wbs_id w))"
    and 2: "Set_has e k \<longrightarrow> (\<forall>a\<in>bs k. ap_activityNode (h_level n + 1) k a \<in> set b)"
    unfolding ap_closed_def by blast+
  show "(\<forall>w\<in>set wbs. parent_wbs_id w = Some k
            \<longrightarrow> (\<exists>n'\<in>set (concat blocks). h_type n' = WbsT \<and> h_wbs_id n' = Some (wbs_id w)))
        \<and> (Set_has e k \<longrightarrow> (\<forall>a\<in>bs k. ap_activityNode (h_level n + 1) k a \<in> set (concat blocks)))"
    using 1 2 sub by blast
qed

lemma buildWBSTree_props:
  assumes "buildWBSTree f wbs pinfo e p l m = Some (out, m')"
  shows "bucket_eq m m'
       \<and> list_all (ap_node_ok wbs e (\<lambda>k. length (get_or_empty m k))) out
       \<and> ap_closed wbs e (\<lambda>k. set (get_or_empty m k)) out
       \<and> (\<forall>w\<in>set wbs. ap_is_child pinfo p w
             \<longrightarrow> (\<exists>n\<in>set out. h_type n = WbsT \<and> h_wbs_id n = Some (wbs_id w)))"
  using assms
proof (induction f arbitrary: p l m out m')
  case 0
  then show ?case by simp
next
  case (Suc f)
  let ?xs = "js_sort (\<lambda>a b. localeCompare (wbs_name a) (wbs_name b)) (filter (ap_is_child pinfo p) wbs)"
  let ?body = "buildWBSTree_item (buildWBSTree f wbs pinfo e)
              (\<lambda>abw. getAllDescendantActivities f abw wbs) e p l"
  have fe: "forEach_st ?body ?xs m = Some (out, m')"
    using Suc.prems by (simp add: Let_def)
  have step: "bucket_eq m t' \<and> ap_block wbs e m x ou"
    if x: "x \<in> set ?xs" and t: "bucket_eq m t" and b: "?body x t = Some (ou, t')" for x t ou t'
  proof -
    have xw: "x \<in> set wbs" using x by simp
    let ?k = "wbs_id x"
    let ?shown = "Set_has e ?k \<and> length (get_or_empty t ?k) > 0"
    let ?t1 = "if ?shown then sort_in_place ap_activity_cmp t ?k else t"
    let ?acts = "if ?shown then map (ap_activityNode (l + 1) ?k) (get_or_empty ?t1 ?k) else []"
    from b obtain desc sub where
      sub: "buildWBSTree f wbs pinfo e (Some ?k) (l + 1) ?t1 = Some (sub, t')"
      and ou: "ou = ap_wbsNode e p l x (get_or_empty t ?k) (calculateWBSStats desc) # ?acts @ sub"
      by (auto simp: buildWBSTree_item_def Let_def split: option.splits if_splits)
    have t1: "bucket_eq t ?t1" by simp
    note ih = Suc.IH[OF sub]
    have tt': "bucket_eq t t'" using ih t1 bucket_eq_trans by blast
    have mt': "bucket_eq m t'" using t tt' bucket_eq_trans by blast
    have mt1: "bucket_eq m ?t1" using t t1 bucket_eq_trans by blast
    have sub_ok: "list_all (ap_node_ok wbs e (\<lambda>k. length (get_or_empty m k))) sub"
      and sub_closed: "ap_closed wbs e (\<lambda>k. set (get_or_empty m k)) sub"
      using ih bucket_eq_length[OF mt1] bucket_eq_set[OF mt1] by simp_all
    have sub_children: "\<forall>w\<in>set wbs. parent_wbs_id w = Some ?k
             \<longrightarrow> (\<exists>n\<in>set sub. h_type n = WbsT \<and> h_wbs_id n = Some (wbs_id w))"
      using ih by (simp add: ap_is_child_def)
    have node_ok: "ap_node_ok wbs e (\<lambda>k. length (get_or_empty m k))
                     (ap_wbsNode e p l x (get_or_empty t ?k) (calculateWBSStats desc))"
      using xw bucket_eq_length[OF t] by (auto simp: ap_node_ok_def)
    have acts_ok: "list_all (ap_node_ok wbs e (\<lambda>k. length (get_or_empty m k))) ?acts"
      using xw by (auto simp: ap_node_ok_def list_all_iff)
    have ok: "list_all (ap_node_ok wbs e (\<lambda>k. length (get_or_empty m k))) ou"
      unfolding ou using node_ok acts_ok sub_ok by simp
    have acts_all: "Set_has e ?k \<Longrightarrow> a \<in> set (get_or_empty m ?k) \<Longrightarrow> ap_activityNode (l + 1) ?k a \<in> set ?acts" for a
    proof -
      assume ex: "Set_has e ?k" and a: "a \<in> set (get_or_empty m ?k)"
      have at: "a \<in> set (get_or_empty t ?k)" using a bucket_eq_set[OF t] by simp
      then have "length (get_or_empty t ?k) > 0" by (cases "get_or_empty t ?k") auto
      then have sh: ?shown using ex by simp
      have "a \<in> set (get_or_empty (sort_in_place ap_activity_cmp t ?k) ?k)"
        using at bucket_eq_set[OF bucket_eq_sort, of ap_activity_cmp t ?k ?k] by simp
      then show ?thesis using sh by simp
    qed
    have closed: "ap_closed wbs e (\<lambda>k. set (get_or_empty m k)) ou"
      unfolding ap_closed_def
    proof (intro ballI allI impI)
      fix n k assume n: "n \<in> set ou" and k: "h_type n = WbsT \<and> h_wbs_id n = Some k"
      consider (node) "n = ap_wbsNode e p l x (get_or_empty t ?k) (calculateWBSStats desc)"
        | (sub) "n \<in> set sub"
        using n k unfolding ou by (auto split: if_splits)
      then show "(\<forall>w\<in>set wbs. parent_wbs_id w = Some k
            \<longrightarrow> (\<exists>n'\<in>set ou. h_type n' = WbsT \<and> h_wbs_id n' = Some (wbs_id w)))
        \<and> (Set_has e k \<longrightarrow> (\<forall>a\<in>set (get_or_empty m k). ap_activityNode (h_level n + 1) k a \<in> set ou))"
      proof cases
        case node
        then have kk: "k = ?k" "h_level n = l" using k by simp_all
        have "\<forall>w\<in>set wbs. parent_wbs_id w = Some k
            \<longrightarrow> (\<exists>n'\<in>set ou. h_type n' = WbsT \<and> h_wbs_id n' = Some (wbs_id w))"
          using sub_children unfolding kk ou by auto
        moreover have "Set_has e k \<longrightarrow> (\<forall>a\<in>set (get_or_empty m k). ap_activityNode (h_level n + 1) k a \<in> set ou)"
        proof (intro impI ballI)
          fix a assume "Set_has e k" "a \<in> set (get_or_empty m k)"
          then have "ap_activityNode (l + 1) ?k a \<in> set ?acts" using acts_all kk by blast
          moreover have "set ?acts \<subseteq> set ou" unfolding ou by auto
          ultimately show "ap_activityNode (h_level n + 1) k a \<in> set ou" unfolding kk by blast
        qed
        ultimately show ?thesis by blast
      next
        case sub
        have "set sub \<subseteq> set ou" unfolding ou by auto
        then show ?thesis using sub_closed sub k unfolding ap_closed_def by blast
      qed
    qed
    have "\<exists>n\<in>set ou. h_type n = WbsT \<and> h_wbs_id n = Some ?k"
      unfolding ou by auto
    then show ?thesis using mt' ok closed by (simp add: ap_block_def)
  qed
  have "bucket_eq m m' \<and> (\<exists>blocks. out = concat blocks \<and> list_all2 (ap_block wbs e m) ?xs blocks)"
  proof (rule forEach_st_blocks[where I = "bucket_eq m" and P = "ap_block wbs e m", OF fe])
    show "bucket_eq m m" by simp
  next
    fix x t ou t'
    assume "x \<in> set ?xs" "bucket_eq m t" "?body x t = Some (ou, t')"
    then show "bucket_eq m t' \<and> ap_block wbs e m x ou" by (rule step)
  qed
  then obtain blocks where m': "bucket_eq m m'" and out: "out = concat blocks"
    and bl: "list_all2 (ap_block wbs e m) ?xs blocks"
    by auto
  have each: "\<And>b. b \<in> set blocks \<Longrightarrow> \<exists>x. ap_block wbs e m x b"
    using bl by (metis in_set_conv_nth list_all2_conv_all_nth)
  have ok: "list_all (ap_node_ok wbs e (\<lambda>k. length (get_or_empty m k))) out"
    unfolding out using each by (auto simp: list_all_iff ap_block_def)
  have closed: "ap_closed wbs e (\<lambda>k. set (get_or_empty m k)) out"
    unfolding out by (rule ap_closed_concat) (use each in \<open>auto simp: ap_block_def\<close>)
  have roots: "\<forall>w\<in>set wbs. ap_is_child pinfo p w
             \<longrightarrow> (\<exists>n\<in>set out. h_type n = WbsT \<and> h_wbs_id n = Some (wbs_id w))"
  proof (intro ballI impI)
    fix w assume "w \<in> set wbs" "ap_is_child pinfo p w"
    then have "w \<in> set ?xs" by simp
    then obtain i where i: "i < length ?xs" "?xs ! i = w" by (meson in_set_conv_nth)
    then have "ap_block wbs e m w (blocks ! i)" "blocks ! i \<in> set blocks"
      using bl by (auto simp: list_all2_conv_all_nth)
    then show "\<exists>n\<in>set out. h_type n = WbsT \<and> h_wbs_id n = Some (wbs_id w)"
      unfolding out ap_block_def by auto
  qed
  show ?case using m' ok closed roots by simp
qed


lemma ap_wbsNode_Set_has: "Set_has e1 = Set_has e2 \<Longrightarrow> ap_wbsNode e1 p l w d st = ap_wbsNode e2 p l w d st"
  by (simp add: ap_wbsNode_def)

lemma buildWBSTree_item_Set_has:
  assumes "Set_has e1 = Set_has e2"
  shows "buildWBSTree_item r d e1 = buildWBSTree_item r d e2"
  by (simp add: buildWBSTree_item_def fun_eq_iff ap_wbsNode_Set_has [OF assms] assms Let_def
        cong: option.case_cong prod.case_cong if_cong)

lemma buildWBSTree_Set_has:
  assumes "Set_has e1 = Set_has e2"
  shows "buildWBSTree f wbs pinfo e1 p l m = buildWBSTree f wbs pinfo e2 p l m"
proof (induction f arbitrary: p l m)
  case 0
  then show ?case by simp
next
  case (Suc f)
  have "buildWBSTree f wbs pinfo e1 = buildWBSTree f wbs pinfo e2"
    using Suc.IH by (intro ext)
  then show ?case
    by (simp add: buildWBSTree_item_Set_has [OF assms])
qed

lemma gantt_buildWBSNodes_item_Set_has:
  assumes "Set_has e1 = Set_has e2"
  shows "gantt_buildWBSNodes_item r e1 = gantt_buildWBSNodes_item r e2"
  by (simp add: gantt_buildWBSNodes_item_def fun_eq_iff gantt_wbsNode_def assms Let_def
        cong: option.case_cong prod.case_cong if_cong)

lemma gantt_buildWBSNodes_Set_has:
  assumes "Set_has e1 = Set_has e2"
  shows "gantt_buildWBSNodes f wbs e1 p l m = gantt_buildWBSNodes f wbs e2 p l m"
proof (induction f arbitrary: p l m)
  case 0
  then show ?case by simp
next
  case (Suc f)
  have "gantt_buildWBSNodes f wbs e1 = gantt_buildWBSNodes f wbs e2"
    using Suc.IH by (intro ext)
  then show ?case
    by (simp add: gantt_buildWBSNodes_item_Set_has [OF assms])
qed

lemma enh_buildWBSNodes_item_Set_has:
  assumes "Set_has e1 = Set_has e2"
  shows "enh_buildWBSNodes_item r d wbs e1 = enh_buildWBSNodes_item r d wbs e2"
  by (simp add: enh_buildWBSNodes_item_def fun_eq_iff enh_wbsNode_def assms Let_def
        cong: option.case_cong prod.case_cong if_cong)

lemma enh_buildWBSNodes_Set_has:
  assumes "Set_has e1 = Set_has e2"
  shows "enh_buildWBSNodes f wbs e1 p l m = enh_buildWBSNodes f wbs e2 p l m"
proof (induction f arbitrary: p l m)
  case 0
  then show ?case by simp
next
  case (Suc f)
  have "enh_buildWBSNodes f wbs e1 = enh_buildWBSNodes f wbs e2"
    using Suc.IH by (intro ext)
  then show ?case
    by (simp add: enh_buildWBSNodes_item_Set_has [OF assms])
qed

text \<open>
  C7. Two invocations with equal activity lists, equal WBS lists and expanded sets with the
  same members (whatever their insertion order) produce the same output sequence, node for
  node, in all three builders.
\<close>

theorem hierarchy_deterministic:
  assumes "set expanded1 = set expanded2"
  shows "hierarchy fuel activities wbs pinfo expanded1 = hierarchy fuel activities wbs pinfo expanded2
       \<and> ganttData fuel activities wbs expanded1 = ganttData fuel activities wbs expanded2
       \<and> treeData fuel activities wbs expanded1 summary schedule
           = treeData fuel activities wbs expanded2 summary schedule"
proof -
  have h: "Set_has expanded1 = Set_has expanded2"
    using assms by (auto simp: Set_has_def fun_eq_iff)
  show ?thesis
    by (simp add: hierarchy_def ganttData_def treeData_def buildWBSTree_Set_has [OF h]
          gantt_buildWBSNodes_Set_has [OF h] enh_buildWBSNodes_Set_has [OF h]
          ap_projectNode_def ap_unassignedNode_def enh_projectNode_def h Let_def
          cong: option.case_cong prod.case_cong if_cong)
qed

theorem hierarchy_deterministic_witness:
  "set [''project-root'', ''A''] = set [''A'', ''project-root'', ''A'']
   \<and> hierarchy 3 [ex_activity ''T1'' ''A'' 1 0 None None] [ex_wbs ''A'' None 0]
        (Some ex_project) [''project-root'', ''A'']
     = hierarchy 3 [ex_activity ''T1'' ''A'' 1 0 None None] [ex_wbs ''A'' None 0]
        (Some ex_project) [''A'', ''project-root'', ''A'']"
proof -
  have h: "set [''project-root'', ''A''] = set [''A'', ''project-root'', ''A'']"
    by auto
  show ?thesis
    using h hierarchy_deterministic [OF h, of 3 "[ex_activity ''T1'' ''A'' 1 0 None None]"
              "[ex_wbs ''A'' None 0]" "Some ex_project"]
    by blast
qed

lemma ap_under_mono: "ap_under w n out \<Longrightarrow> set out \<subseteq> set out' \<Longrightarrow> ap_under w n out'"
  unfolding ap_under_def by blast

lemma ap_hangs_concat:
  assumes "\<And>b. b \<in> set blocks \<Longrightarrow> ap_hangs wbs pinfo p l b"
  shows "ap_hangs wbs pinfo p l (concat blocks)"
  unfolding ap_hangs_def
proof (intro ballI impI)
  fix n assume n: "n \<in> set (concat blocks)" and t: "h_type n = WbsT"
  then obtain b where b: "b \<in> set blocks" "n \<in> set b" by auto
  have sub: "set b \<subseteq> set (concat blocks)" using b by auto
  from assms[OF b(1)] b(2) t
  obtain w where w: "w \<in> set wbs" "h_wbs_id n = Some (wbs_id w)"
    "(h_level n = l \<and> ap_is_child pinfo p w \<and> h_parent n = Some (ap_parent_of p))
       \<or> (l < h_level n \<and> ap_under w n b)"
    unfolding ap_hangs_def by blast
  then show "\<exists>w\<in>set wbs. h_wbs_id n = Some (wbs_id w)
           \<and> ((h_level n = l \<and> ap_is_child pinfo p w \<and> h_parent n = Some (ap_parent_of p))
              \<or> (l < h_level n \<and> ap_under w n (concat blocks)))"
    using ap_under_mono [OF _ sub] by blast
qed

lemma buildWBSTree_hangs:
  assumes "buildWBSTree f wbs pinfo e p l m = Some (out, m')"
  shows "ap_hangs wbs pinfo p l out"
  using assms
proof (induction f arbitrary: p l m out m')
  case 0
  then show ?case by simp
next
  case (Suc f)
  let ?xs = "js_sort (\<lambda>a b. localeCompare (wbs_name a) (wbs_name b)) (filter (ap_is_child pinfo p) wbs)"
  let ?body = "buildWBSTree_item (buildWBSTree f wbs pinfo e)
              (\<lambda>abw. getAllDescendantActivities f abw wbs) e p l"
  have fe: "forEach_st ?body ?xs m = Some (out, m')"
    using Suc.prems by (simp add: Let_def)
  have step: "ap_hangs wbs pinfo p l ou"
    if x: "x \<in> set ?xs" and b: "?body x t = Some (ou, t')" for x t ou t'
  proof -
    have xw: "x \<in> set wbs" "ap_is_child pinfo p x" using x by simp_all
    let ?k = "wbs_id x"
    from b obtain desc t1 acts sub where
      sub: "buildWBSTree f wbs pinfo e (Some ?k) (l + 1) t1 = Some (sub, t')"
      and ou: "ou = ap_wbsNode e p l x (get_or_empty t ?k) (calculateWBSStats desc) # acts @ sub"
      and acts: "\<forall>n\<in>set acts. h_type n = ActivityT"
      by (auto simp: buildWBSTree_item_def Let_def split: option.splits if_splits)
    note ih = Suc.IH[OF sub]
    let ?node = "ap_wbsNode e p l x (get_or_empty t ?k) (calculateWBSStats desc)"
    have subset: "set sub \<subseteq> set ou" unfolding ou by auto
    have hd: "?node \<in> set ou" unfolding ou by simp
    show ?thesis unfolding ap_hangs_def
    proof (intro ballI impI)
      fix n assume n: "n \<in> set ou" and ty: "h_type n = WbsT"
      consider (node) "n = ?node" | (sub) "n \<in> set sub"
        using n ty acts unfolding ou by auto
      then show "\<exists>w\<in>set wbs. h_wbs_id n = Some (wbs_id w)
           \<and> ((h_level n = l \<and> ap_is_child pinfo p w \<and> h_parent n = Some (ap_parent_of p))
              \<or> (l < h_level n \<and> ap_under w n ou))"
      proof cases
        case node
        then show ?thesis using xw by auto
      next
        case sub
        from ih sub ty obtain w where w: "w \<in> set wbs" "h_wbs_id n = Some (wbs_id w)"
          and d: "(h_level n = l + 1 \<and> ap_is_child pinfo (Some ?k) w
                     \<and> h_parent n = Some (ap_parent_of (Some ?k)))
              \<or> (l + 1 < h_level n \<and> ap_under w n sub)"
          unfolding ap_hangs_def by blast
        from d have "l < h_level n \<and> ap_under w n ou"
        proof
          assume a: "h_level n = l + 1 \<and> ap_is_child pinfo (Some ?k) w
                     \<and> h_parent n = Some (ap_parent_of (Some ?k))"
          then have "parent_wbs_id w = Some ?k" by (simp add: ap_is_child_def)
          moreover have "h_parent n = Some (if ?k = [] then ''project-root'' else ?k)"
            using a by (simp add: ap_parent_of_def)
          moreover have "h_type ?node = WbsT \<and> h_wbs_id ?node = Some ?k \<and> h_level ?node + 1 = h_level n"
            using a by simp
          ultimately have "ap_under w n ou" unfolding ap_under_def using hd by blast
          then show ?thesis using a by simp
        next
          assume "l + 1 < h_level n \<and> ap_under w n sub"
          then show ?thesis using ap_under_mono [OF _ subset] by simp
        qed
        then show ?thesis using w by blast
      qed
    qed
  qed
  have "True \<and> (\<exists>blocks. out = concat blocks \<and> list_all2 (\<lambda>x. ap_hangs wbs pinfo p l) ?xs blocks)"
  proof (rule forEach_st_blocks[where I = "\<lambda>_. True" and P = "\<lambda>x. ap_hangs wbs pinfo p l", OF fe])
    show True by simp
  next
    fix x t ou t'
    assume "x \<in> set ?xs" "True" "?body x t = Some (ou, t')"
    then show "True \<and> ap_hangs wbs pinfo p l ou" using step by blast
  qed
  then obtain blocks where out: "out = concat blocks"
    and bl: "list_all2 (\<lambda>x. ap_hangs wbs pinfo p l) ?xs blocks"
    by auto
  have "\<And>b. b \<in> set blocks \<Longrightarrow> ap_hangs wbs pinfo p l b"
    using bl by (metis in_set_conv_nth list_all2_conv_all_nth)
  then show ?case unfolding out by (rule ap_hangs_concat)
qed

subsection \<open>Termination\<close>

lemma hierarchy_collapsed:
  "\<not> Set_has e ''project-root'' \<Longrightarrow> hierarchy fuel acts wbs (Some pinfo) e = Some [ap_projectNode wbs pinfo e]"
  by (simp add: hierarchy_def Let_def)

lemma hierarchy_shape:
  assumes "hierarchy fuel acts wbs (Some pinfo) e = Some out" and "Set_has e ''project-root''"
  shows "\<exists>tree abw. buildWBSTree fuel wbs pinfo e None 1 (activitiesByWBS_AP acts) = Some (tree, abw)
           \<and> out = ap_projectNode wbs pinfo e # tree
                   @ (if length (get_or_empty abw ''unassigned'') > 0
                      then ap_unassignedNode e (get_or_empty abw ''unassigned'')
                           # (if Set_has e ''unassigned''
                              then map (ap_activityNode 2 ''unassigned'') (get_or_empty abw ''unassigned'')
                              else [])
                      else [])"
proof -
  from assms obtain r where r: "buildWBSTree fuel wbs pinfo e None 1 (activitiesByWBS_AP acts) = Some r"
    by (auto simp: hierarchy_def Let_def split: option.splits)
  obtain tree abw where ta: "r = (tree, abw)" by (cases r)
  have "out = ap_projectNode wbs pinfo e # tree
                   @ (if length (get_or_empty abw ''unassigned'') > 0
                      then ap_unassignedNode e (get_or_empty abw ''unassigned'')
                           # (if Set_has e ''unassigned''
                              then map (ap_activityNode 2 ''unassigned'') (get_or_empty abw ''unassigned'')
                              else [])
                      else [])"
    using assms r ta by (simp add: hierarchy_def Let_def split: if_splits)
  then show ?thesis using r ta by blast
qed

lemma ap_projectNode_sel [simp]:
  "h_type (ap_projectNode wbs pinfo e) = ProjectT"
  "h_id (ap_projectNode wbs pinfo e) = ''project-root''"
  "h_children (ap_projectNode wbs pinfo e) = Some (length wbs)"
  "h_level (ap_projectNode wbs pinfo e) = 0"
  by (simp_all add: ap_projectNode_def)

lemma ap_unassignedNode_sel [simp]:
  "h_type (ap_unassignedNode e U) = WbsT"
  "h_id (ap_unassignedNode e U) = ''wbs-unassigned''"
  "h_children (ap_unassignedNode e U) = Some (length U)"
  "h_level (ap_unassignedNode e U) = 1"
  "h_wbs_id (ap_unassignedNode e U) = Some ''unassigned''"
  "h_expanded (ap_unassignedNode e U) = Some (Set_has e ''unassigned'')"
  "h_parent (ap_unassignedNode e U) = Some ''project-root''"
  by (simp_all add: ap_unassignedNode_def)

lemma no_reachable_cycle_root:
  "no_reachable_cycle rank S pinfo wbs \<Longrightarrow> w \<in> set wbs \<Longrightarrow> ap_is_child pinfo None w
     \<Longrightarrow> wbs_id w \<in> set S"
  by (auto simp: no_reachable_cycle_def list_all_iff)

lemma no_reachable_cycle_child:
  "no_reachable_cycle rank S pinfo wbs \<Longrightarrow> w \<in> set wbs \<Longrightarrow> parent_wbs_id w = Some p
     \<Longrightarrow> p \<in> set S \<Longrightarrow> wbs_id w \<in> set S \<and> rank p < rank (wbs_id w)"
  by (auto simp: no_reachable_cycle_def list_all_iff split: option.splits)

lemma descendants_terminate:
  assumes "no_reachable_cycle rank S pinfo wbs" and "\<And>w. w \<in> set wbs \<Longrightarrow> rank (wbs_id w) \<le> B"
  shows "x \<in> set S \<Longrightarrow> B < f + rank x \<Longrightarrow> getAllDescendantActivities (Suc f) m wbs x \<noteq> None"
proof (induction f arbitrary: x)
  case 0
  have "filter (\<lambda>w. parent_wbs_id w = Some x) wbs = []"
  proof (rule ccontr)
    assume "filter (\<lambda>w. parent_wbs_id w = Some x) wbs \<noteq> []"
    then obtain w where w: "w \<in> set wbs" "parent_wbs_id w = Some x"
      by (metis (mono_tags, lifting) filter_False)
    then show False using no_reachable_cycle_child [OF assms(1) w 0(1)] assms(2) [OF w(1)] 0(2) by simp
  qed
  then show ?case by (simp add: Let_def)
next
  case (Suc f)
  have "flatMap_opt (\<lambda>c. getAllDescendantActivities (Suc f) m wbs (wbs_id c))
          (filter (\<lambda>w. parent_wbs_id w = Some x) wbs) \<noteq> None"
  proof (rule flatMap_opt_not_None)
    fix c assume "c \<in> set (filter (\<lambda>w. parent_wbs_id w = Some x) wbs)"
    then have "wbs_id c \<in> set S \<and> rank x < rank (wbs_id c)"
      using no_reachable_cycle_child [OF assms(1) _ _ Suc.prems(1)] by simp
    then show "getAllDescendantActivities (Suc f) m wbs (wbs_id c) \<noteq> None"
      using Suc by simp
  qed
  then show ?case
    by (auto simp: Let_def simp del: getAllDescendantActivities.simps(2)
          simp add: getAllDescendantActivities.simps(2) [of "Suc f"])
qed

lemma buildWBSTree_terminates_below:
  assumes "no_reachable_cycle rank S pinfo wbs" and "\<And>w. w \<in> set wbs \<Longrightarrow> rank (wbs_id w) \<le> B"
  shows "k \<in> set S \<Longrightarrow> B < g + rank k \<Longrightarrow> buildWBSTree (Suc g) wbs pinfo e (Some k) l m \<noteq> None"
proof (induction g arbitrary: k l m)
  case 0
  have "filter (ap_is_child pinfo (Some k)) wbs = []"
  proof (rule ccontr)
    assume "filter (ap_is_child pinfo (Some k)) wbs \<noteq> []"
    then obtain w where "w \<in> set wbs" "ap_is_child pinfo (Some k) w"
      by (metis (mono_tags, lifting) filter_False)
    then have w: "w \<in> set wbs" "parent_wbs_id w = Some k" by (simp_all add: ap_is_child_def)
    show False using no_reachable_cycle_child [OF assms(1) w 0(1)] assms(2) [OF w(1)] 0(2) by simp
  qed
  then show ?case by (simp add: Let_def js_sort_def)
next
  case (Suc g)
  have "forEach_st (buildWBSTree_item (buildWBSTree (Suc g) wbs pinfo e)
              (\<lambda>abw. getAllDescendantActivities (Suc g) abw wbs) e (Some k) l)
           (js_sort (\<lambda>a b. localeCompare (wbs_name a) (wbs_name b))
                          (filter (ap_is_child pinfo (Some k)) wbs)) m \<noteq> None"
  proof (rule forEach_st_not_None)
    fix x t
    assume "x \<in> set (js_sort (\<lambda>a b. localeCompare (wbs_name a) (wbs_name b))
                          (filter (ap_is_child pinfo (Some k)) wbs))"
    then have x: "x \<in> set wbs" "parent_wbs_id x = Some k" by (auto simp: ap_is_child_def)
    have xs: "wbs_id x \<in> set S" and r: "B < g + rank (wbs_id x)"
      using no_reachable_cycle_child [OF assms(1) x Suc.prems(1)] Suc.prems(2) by simp_all
    show "buildWBSTree_item (buildWBSTree (Suc g) wbs pinfo e)
              (\<lambda>abw. getAllDescendantActivities (Suc g) abw wbs) e (Some k) l x t \<noteq> None"
      by (rule buildWBSTree_item_not_None)
         (use xs r descendants_terminate [OF assms] Suc.IH in blast)+
  qed
  then show ?case by (simp add: Let_def)
qed

lemma buildWBSTree_terminates_root:
  assumes "no_reachable_cycle rank S pinfo wbs" and "\<And>w. w \<in> set wbs \<Longrightarrow> rank (wbs_id w) \<le> B"
  shows "buildWBSTree (Suc (Suc (Suc B))) wbs pinfo e None l m \<noteq> None"
proof -
  have "forEach_st (buildWBSTree_item (buildWBSTree (Suc (Suc B)) wbs pinfo e)
              (\<lambda>abw. getAllDescendantActivities (Suc (Suc B)) abw wbs) e None l)
           (js_sort (\<lambda>a b. localeCompare (wbs_name a) (wbs_name b))
                          (filter (ap_is_child pinfo None) wbs)) m \<noteq> None"
  proof (rule forEach_st_not_None)
    fix x t
    assume "x \<in> set (js_sort (\<lambda>a b. localeCompare (wbs_name a) (wbs_name b))
                          (filter (ap_is_child pinfo None) wbs))"
    then have "wbs_id x \<in> set S" using no_reachable_cycle_root [OF assms(1)] by simp
    then show "buildWBSTree_item (buildWBSTree (Suc (Suc B)) wbs pinfo e)
              (\<lambda>abw. getAllDescendantActivities (Suc (Suc B)) abw wbs) e None l x t \<noteq> None"
      by (intro buildWBSTree_item_not_None)
         (use descendants_terminate [OF assms, of _ "Suc B"]
              buildWBSTree_terminates_below [OF assms, of _ "Suc B"] in simp)+
  qed
  then show ?thesis by (simp add: Let_def)
qed

lemma hierarchy_returns:
  assumes "no_reachable_cycle rank S pinfo wbs"
  shows "\<exists>fuel out. \<forall>fuel' \<ge> fuel. hierarchy fuel' acts wbs (Some pinfo) e = Some out"
proof -
  define B where "B = sum_list (map (\<lambda>w. rank (wbs_id w)) wbs)"
  have b: "\<And>w. w \<in> set wbs \<Longrightarrow> rank (wbs_id w) \<le> B" unfolding B_def by (rule rank_bound)
  obtain r where r: "buildWBSTree (Suc (Suc (Suc B))) wbs pinfo e None 1 (activitiesByWBS_AP acts) = Some r"
    using buildWBSTree_terminates_root [OF assms b] by blast
  have "\<forall>fuel' \<ge> Suc (Suc (Suc B)). hierarchy fuel' acts wbs (Some pinfo) e
          = hierarchy (Suc (Suc (Suc B))) acts wbs (Some pinfo) e"
    using buildWBSTree_mono_le [OF r] r
    by (simp add: hierarchy_def Let_def del: buildWBSTree.simps)
  moreover have "\<exists>out. hierarchy (Suc (Suc (Suc B))) acts wbs (Some pinfo) e = Some out"
    using r by (auto simp add: hierarchy_def Let_def simp del: buildWBSTree.simps split: prod.splits)
  ultimately show ?thesis by metis
qed

text \<open>
  The output is a tree flattened in pre-order, with the level of each node in the node. The
  path from a node up to the root is read off the sequence: the node itself, then the nearest
  node before it on a smaller level, and so on (\<open>path_to\<close>). Read downwards, every path of
  the builder's output is a chain of parents.
\<close>

lemma parent_chain_ranks:
  "parent_chain rank p l c \<Longrightarrow> m \<in> set c \<Longrightarrow> h_type m = WbsT
     \<Longrightarrow> \<exists>k. h_wbs_id m = Some k \<and> rank_above rank p \<le> rank k"
proof (induction c arbitrary: p l)
  case Nil
  then show ?case by simp
next
  case (Cons x c)
  show ?case
  proof (cases "m = x")
    case True
    then show ?thesis using Cons.prems by auto
  next
    case False
    then have mc: "m \<in> set c" using Cons.prems(2) by simp
    then have "c \<noteq> []" by auto
    with Cons.prems(1) obtain k where k: "h_wbs_id x = Some k" "rank_above rank p \<le> rank k"
      "parent_chain rank (Some k) (Suc l) c" by auto
    from Cons.IH [OF k(3) mc Cons.prems(3)] obtain k' where "h_wbs_id m = Some k'" "Suc (rank k) \<le> rank k'"
      by (auto simp: rank_above_def)
    then show ?thesis using k(2) by auto
  qed
qed

lemma parent_chain_distinct:
  "parent_chain rank p l c \<Longrightarrow> distinct (map h_wbs_id (filter (\<lambda>m. h_type m = WbsT) c))"
proof (induction c arbitrary: p l)
  case Nil
  then show ?case by simp
next
  case (Cons x c)
  show ?case
  proof (cases "h_type x = WbsT")
    case False
    then have "c = []" using Cons.prems by auto
    then show ?thesis using False by simp
  next
    case True
    with Cons.prems obtain k where k: "h_wbs_id x = Some k"
      "parent_chain rank (Some k) (Suc l) c" by auto
    have "h_wbs_id x \<notin> h_wbs_id ` set (filter (\<lambda>m. h_type m = WbsT) c)"
    proof
      assume "h_wbs_id x \<in> h_wbs_id ` set (filter (\<lambda>m. h_type m = WbsT) c)"
      then obtain m where m: "m \<in> set c" "h_type m = WbsT" "h_wbs_id m = h_wbs_id x" by auto
      from parent_chain_ranks [OF k(2) m(1,2)] obtain k' where "h_wbs_id m = Some k'" "Suc (rank k) \<le> rank k'"
        by (auto simp: rank_above_def)
      then show False using m(3) k(1) by simp
    qed
    then show ?thesis using True Cons.IH [OF k(2)] by simp
  qed
qed

lemma path_to_hd: "xs \<noteq> [] \<Longrightarrow> hd (path_to xs) = last xs"
  by (induction xs rule: rev_induct) (simp_all add: path_to_def push_node_def)

lemma list_all2_constD: "list_all2 (\<lambda>x. P) xs ys \<Longrightarrow> y \<in> set ys \<Longrightarrow> P y"
  by (induction xs ys rule: list_all2_induct) auto

lemma foldl_push_subset: "set (foldl push_node st xs) \<subseteq> set st \<union> set xs"
proof (induction xs arbitrary: st)
  case Nil
  then show ?case by simp
next
  case (Cons x xs)
  have "set (push_node st x) \<subseteq> set st \<union> {x}"
    using set_dropWhileD by (fastforce simp: push_node_def)
  then show ?case using Cons.IH [of "push_node st x"] by auto
qed

lemma push_node_drop_all:
  "\<forall>m\<in>set st. h_level n \<le> h_level m \<Longrightarrow> push_node st n = [n]"
  by (simp add: push_node_def)

lemma path_to_restart:
  assumes "\<forall>m\<in>set pre. h_level n \<le> h_level m"
  shows "path_to (pre @ n # ys) = path_to (n # ys)"
proof -
  have "\<forall>m\<in>set (foldl push_node [] pre). h_level n \<le> h_level m"
    using foldl_push_subset [of "[]" pre] assms by auto
  then have "push_node (foldl push_node [] pre) n = [n]" by (rule push_node_drop_all)
  moreover have "push_node [] n = [n]" by (simp add: push_node_def)
  ultimately show ?thesis by (simp add: path_to_def)
qed

lemma foldl_push_base:
  assumes "\<forall>m\<in>set ys. \<forall>b\<in>set st. h_level b < h_level m"
  shows "foldl push_node (c @ st) ys = foldl push_node c ys @ st"
  using assms
proof (induction ys arbitrary: c)
  case Nil
  then show ?case by simp
next
  case (Cons y ys)
  have "dropWhile (\<lambda>m. h_level y \<le> h_level m) st = st"
    using Cons.prems by (cases st) auto
  then have "dropWhile (\<lambda>m. h_level y \<le> h_level m) (c @ st)
               = dropWhile (\<lambda>m. h_level y \<le> h_level m) c @ st"
    by (simp add: dropWhile_append)
  then have "push_node (c @ st) y = push_node c y @ st" by (simp add: push_node_def)
  then show ?case using Cons.IH [of "push_node c y"] Cons.prems by simp
qed

lemma path_to_base:
  assumes "\<forall>m\<in>set ys. h_level b < h_level m"
  shows "path_to (b # ys) = path_to ys @ [b]"
proof -
  have "path_to (b # ys) = foldl push_node ([] @ [b]) ys"
    by (simp add: path_to_def push_node_def)
  also have "\<dots> = foldl push_node [] ys @ [b]"
    by (rule foldl_push_base) (use assms in simp)
  finally show ?thesis by (simp add: path_to_def)
qed

lemma path_to_leaves:
  assumes "as \<noteq> []" and "\<forall>a\<in>set as. h_level a = Suc (h_level n)"
  shows "path_to (n # as) = [last as, n]"
  using assms
proof (induction as rule: rev_induct)
  case Nil
  then show ?case by simp
next
  case (snoc a as)
  have la: "h_level a = Suc (h_level n)" using snoc.prems(2) by simp
  show ?case
  proof (cases "as = []")
    case True
    then show ?thesis using la by (simp add: path_to_def push_node_def)
  next
    case False
    then have "path_to (n # as) = [last as, n]" using snoc by simp
    moreover have "h_level (last as) = Suc (h_level n)" using snoc.prems(2) False by simp
    ultimately show ?thesis using la by (simp add: path_to_def push_node_def)
  qed
qed

lemma path_to_under:
  assumes "\<forall>a\<in>set as. h_level a = Suc (h_level n)"
    and "h_level w = Suc (h_level n)" and "\<forall>m\<in>set ws. Suc (h_level n) \<le> h_level m"
  shows "path_to (n # as @ w # ws) = path_to (w # ws) @ [n]"
proof -
  have "path_to (n # as @ w # ws) = path_to ((as @ w # ws)) @ [n]"
    by (rule path_to_base) (use assms in auto)
  also have "path_to (as @ w # ws) = path_to (w # ws)"
    by (rule path_to_restart) (use assms in simp)
  finally show ?thesis .
qed

lemma paths_ok_append:
  assumes "paths_ok rank p l xs" and "levels_ok l xs" and "paths_ok rank p l ys" and "levels_ok l ys"
  shows "paths_ok rank p l (xs @ ys) \<and> levels_ok l (xs @ ys)"
proof
  show "levels_ok l (xs @ ys)"
    using assms(2,4) by (cases xs) (auto simp: levels_ok_def)
  show "paths_ok rank p l (xs @ ys)"
    unfolding paths_ok_def
  proof (intro allI impI)
    fix i assume i: "0 < i \<and> i \<le> length (xs @ ys)"
    show "parent_chain rank p l (rev (path_to (take i (xs @ ys))))"
    proof (cases "i \<le> length xs")
      case True
      then show ?thesis using assms(1) i by (simp add: paths_ok_def)
    next
      case False
      define j where "j = i - length xs"
      have j: "0 < j" "j \<le> length ys" using False i by (simp_all add: j_def)
      then obtain y ys' where ys: "ys = y # ys'" by (cases ys) auto
      obtain j' where j': "j = Suc j'" using j(1) by (cases j) auto
      have ly: "h_level y = l" using assms(4) ys by (simp add: levels_ok_def)
      have "take i (xs @ ys) = xs @ y # take j' ys'"
        using False ys j' by (simp add: j_def)
      moreover have "path_to (xs @ y # take j' ys') = path_to (y # take j' ys')"
        by (rule path_to_restart) (use assms(2) ly in \<open>simp add: levels_ok_def\<close>)
      moreover have "y # take j' ys' = take j ys" using ys j' by simp
      ultimately have "path_to (take i (xs @ ys)) = path_to (take j ys)" by simp
      then show ?thesis using assms(3) j by (simp add: paths_ok_def)
    qed
  qed
qed

lemma paths_ok_Nil [simp]: "paths_ok rank p l []" "levels_ok l []"
  by (simp_all add: paths_ok_def levels_ok_def)

lemma paths_ok_concat:
  assumes "\<And>bl. bl \<in> set blocks \<Longrightarrow> paths_ok rank p l bl \<and> levels_ok l bl"
  shows "paths_ok rank p l (concat blocks) \<and> levels_ok l (concat blocks)"
  using assms
proof (induction blocks)
  case Nil
  then show ?case by simp
next
  case (Cons bl blocks)
  have 1: "paths_ok rank p l bl \<and> levels_ok l bl" using Cons.prems by simp
  have 2: "paths_ok rank p l (concat blocks) \<and> levels_ok l (concat blocks)"
    using Cons.IH Cons.prems by simp
  show ?case using paths_ok_append [of rank p l bl "concat blocks"] 1 2 by simp
qed

lemma paths_ok_block:
  assumes n: "h_level n = l" "h_type n = WbsT" "h_wbs_id n = Some k" "rank_above rank p \<le> rank k"
      "h_parent n = Some (ap_parent_of p)"
    and as: "\<forall>a\<in>set as. h_type a = ActivityT \<and> h_level a = Suc l \<and> h_parent a = Some k"
    and sub: "paths_ok rank (Some k) (Suc l) sub" "levels_ok (Suc l) sub"
  shows "paths_ok rank p l (n # as @ sub) \<and> levels_ok l (n # as @ sub)"
proof
  show "levels_ok l (n # as @ sub)"
    using n(1) as sub(2) by (auto simp: levels_ok_def)
  show "paths_ok rank p l (n # as @ sub)"
    unfolding paths_ok_def
  proof (intro allI impI)
    fix i assume i: "0 < i \<and> i \<le> length (n # as @ sub)"
    then obtain j where j: "i = Suc j" by (cases i) auto
    show "parent_chain rank p l (rev (path_to (take i (n # as @ sub))))"
    proof (cases "j \<le> length as")
      case True
      show ?thesis
      proof (cases "j = 0")
        case True
        then show ?thesis using j n by (simp add: path_to_def push_node_def)
      next
        case False
        let ?as = "take j as"
        have ne: "?as \<noteq> []" using False True by (cases as) auto
        have lv: "\<forall>a\<in>set ?as. h_level a = Suc (h_level n)"
          using as n(1) by (auto dest: in_set_takeD)
        have "path_to (n # ?as) = [last ?as, n]" by (rule path_to_leaves [OF ne lv])
        then have r: "rev (path_to (take i (n # as @ sub))) = [n, last ?as]"
          using j True by simp
        have "last ?as \<in> set as" using ne by (meson in_set_takeD last_in_set)
        then have "parent_chain rank p l [n, last ?as]" using n as by simp
        then show ?thesis by (simp only: r)
      qed
    next
      case False
      define j' where "j' = j - length as"
      have j': "0 < j'" "j' \<le> length sub" using False i j by (simp_all add: j'_def)
      then obtain w ws where sw: "sub = w # ws" by (cases sub) auto
      obtain j'' where j'': "j' = Suc j''" using j'(1) by (cases j') auto
      have lw: "h_level w = Suc (h_level n)" using sub(2) sw n(1) by (simp add: levels_ok_def)
      have lws: "\<forall>m\<in>set (take j'' ws). Suc (h_level n) \<le> h_level m"
        using sub(2) sw n(1) by (auto simp: levels_ok_def dest: in_set_takeD)
      have las: "\<forall>a\<in>set as. h_level a = Suc (h_level n)" using as n(1) by simp
      have "take i (n # as @ sub) = n # as @ w # take j'' ws"
        using False j sw j'' by (simp add: j'_def)
      moreover have "path_to (n # as @ w # take j'' ws) = path_to (w # take j'' ws) @ [n]"
        by (rule path_to_under [OF las lw lws])
      moreover have "w # take j'' ws = take j' sub" using sw j'' by simp
      ultimately have "rev (path_to (take i (n # as @ sub))) = n # rev (path_to (take j' sub))"
        by simp
      then have r: "rev (path_to (take i (n # as @ sub))) = n # rev (path_to (take j' sub))" .
      have "parent_chain rank (Some k) (Suc l) (rev (path_to (take j' sub)))"
        using sub(1) j' by (simp add: paths_ok_def)
      then have "parent_chain rank p l (n # rev (path_to (take j' sub)))" using n by simp
      then show ?thesis by (simp only: r)
    qed
  qed
qed

lemma buildWBSTree_paths:
  assumes nrc: "no_reachable_cycle rank S pinfo wbs"
  shows "buildWBSTree f wbs pinfo e p l m = Some (out, m')
           \<Longrightarrow> (case p of None \<Rightarrow> True | Some q \<Rightarrow> q \<in> set S)
           \<Longrightarrow> paths_ok rank p l out \<and> levels_ok l out"
proof (induction f arbitrary: p l m out m')
  case 0
  then show ?case by simp
next
  case (Suc f)
  let ?xs = "js_sort (\<lambda>a b. localeCompare (wbs_name a) (wbs_name b)) (filter (ap_is_child pinfo p) wbs)"
  let ?body = "buildWBSTree_item (buildWBSTree f wbs pinfo e)
              (\<lambda>abw. getAllDescendantActivities f abw wbs) e p l"
  let ?P = "\<lambda>ou. paths_ok rank p l ou \<and> levels_ok l ou"
  have fe: "forEach_st ?body ?xs m = Some (out, m')"
    using Suc.prems(1) by (simp add: Let_def)
  have step: "?P ou" if x: "x \<in> set ?xs" and b: "?body x t = Some (ou, t')" for x t ou t'
  proof -
    have xw: "x \<in> set wbs" "ap_is_child pinfo p x" using x by simp_all
    let ?k = "wbs_id x"
    have kS: "?k \<in> set S" and kr: "rank_above rank p \<le> rank ?k"
    proof -
      show "?k \<in> set S"
      proof (cases p)
        case None
        then show ?thesis using no_reachable_cycle_root [OF nrc xw(1)] xw(2) by simp
      next
        case (Some q)
        then have "parent_wbs_id x = Some q" "q \<in> set S"
          using xw(2) Suc.prems(2) by (simp_all add: ap_is_child_def)
        then show ?thesis using no_reachable_cycle_child [OF nrc xw(1)] by simp
      qed
      show "rank_above rank p \<le> rank ?k"
      proof (cases p)
        case None
        then show ?thesis by (simp add: rank_above_def)
      next
        case (Some q)
        then have "parent_wbs_id x = Some q" "q \<in> set S"
          using xw(2) Suc.prems(2) by (simp_all add: ap_is_child_def)
        then have "rank q < rank ?k" using no_reachable_cycle_child [OF nrc xw(1)] by simp
        then show ?thesis using Some by (simp add: rank_above_def)
      qed
    qed
    let ?shown = "Set_has e ?k \<and> length (get_or_empty t ?k) > 0"
    from b obtain desc t1 acts sub where
      sub: "buildWBSTree f wbs pinfo e (Some ?k) (l + 1) t1 = Some (sub, t')"
      and ou: "ou = ap_wbsNode e p l x (get_or_empty t ?k) (calculateWBSStats desc) # acts @ sub"
      and acts0: "acts = (if ?shown then map (ap_activityNode (l + 1) ?k) (get_or_empty t1 ?k) else [])"
      by (auto simp: buildWBSTree_item_def Let_def split: option.splits if_splits)
    have acts: "\<forall>n\<in>set acts. h_type n = ActivityT \<and> h_level n = Suc l \<and> h_parent n = Some ?k"
      unfolding acts0 by (auto simp: ap_activityNode_def)
    have ih: "paths_ok rank (Some ?k) (Suc l) sub \<and> levels_ok (Suc l) sub"
      using Suc.IH [OF sub] kS by simp
    have par: "h_parent (ap_wbsNode e p l x (get_or_empty t ?k) (calculateWBSStats desc)) = Some (ap_parent_of p)"
      by (simp add: ap_wbsNode_def ap_parent_of_def)
    show ?thesis
      unfolding ou
      by (rule paths_ok_block [where k = ?k]) (use kr acts ih par in simp_all)
  qed
  have "True \<and> (\<exists>blocks. out = concat blocks \<and> list_all2 (\<lambda>x. ?P) ?xs blocks)"
  proof (rule forEach_st_blocks[where I = "\<lambda>_. True" and P = "\<lambda>x. ?P", OF fe])
    show True by simp
  next
    fix x t ou t'
    assume "x \<in> set ?xs" "True" "?body x t = Some (ou, t')"
    then show "True \<and> ?P ou" using step by blast
  qed
  then obtain blocks where out: "out = concat blocks"
    and bl: "list_all2 (\<lambda>x. ?P) ?xs blocks"
    by auto
  have "\<And>b. b \<in> set blocks \<Longrightarrow> ?P b"
    using bl by (rule list_all2_constD)
  then show ?case unfolding out by (rule paths_ok_concat)
qed

lemma unassigned_paths:
  "paths_ok rank None 1 (ap_unassignedNode e U # map (ap_activityNode 2 ''unassigned'') V)
   \<and> levels_ok 1 (ap_unassignedNode e U # map (ap_activityNode 2 ''unassigned'') V)"
proof -
  have "paths_ok rank None 1 (ap_unassignedNode e U # map (ap_activityNode 2 ''unassigned'') V @ [])
      \<and> levels_ok 1 (ap_unassignedNode e U # map (ap_activityNode 2 ''unassigned'') V @ [])"
    by (rule paths_ok_block [where k = "''unassigned''"])
       (auto simp: rank_above_def ap_parent_of_def ap_activityNode_def)
  then show ?thesis by simp
qed

lemma hierarchy_paths:
  assumes nrc: "no_reachable_cycle rank S pinfo wbs"
    and h: "hierarchy fuel acts wbs (Some pinfo) e = Some out"
    and i: "0 < i" "i \<le> length out"
  shows "\<exists>c. rev (path_to (take i out)) = ap_projectNode wbs pinfo e # c \<and> parent_chain rank None 1 c"
proof -
  have "\<exists>rest. out = ap_projectNode wbs pinfo e # rest \<and> paths_ok rank None 1 rest \<and> levels_ok 1 rest"
  proof (cases "Set_has e ''project-root''")
    case False
    then have "out = ap_projectNode wbs pinfo e # []" using h by (simp add: hierarchy_collapsed)
    then show ?thesis using paths_ok_Nil by blast
  next
    case True
    let ?U = "get_or_empty abw ''unassigned''"
    from hierarchy_shape [OF h True] obtain tree abw where
      t: "buildWBSTree fuel wbs pinfo e None 1 (activitiesByWBS_AP acts) = Some (tree, abw)"
      and out: "out = ap_projectNode wbs pinfo e # tree
                 @ (if length (get_or_empty abw ''unassigned'') > 0
                    then ap_unassignedNode e (get_or_empty abw ''unassigned'')
                         # (if Set_has e ''unassigned''
                            then map (ap_activityNode 2 ''unassigned'') (get_or_empty abw ''unassigned'')
                            else [])
                    else [])"
      by blast
    let ?tail = "(if length (get_or_empty abw ''unassigned'') > 0
                    then ap_unassignedNode e (get_or_empty abw ''unassigned'')
                         # (if Set_has e ''unassigned''
                            then map (ap_activityNode 2 ''unassigned'') (get_or_empty abw ''unassigned'')
                            else [])
                    else [])"
    have tr: "paths_ok rank None 1 tree \<and> levels_ok 1 tree"
      using buildWBSTree_paths [OF nrc t] by simp
    have tl: "paths_ok rank None 1 ?tail \<and> levels_ok 1 ?tail"
      using unassigned_paths [of rank e "get_or_empty abw ''unassigned''" "get_or_empty abw ''unassigned''"]
            unassigned_paths [of rank e "get_or_empty abw ''unassigned''" "[]"]
      by simp
    have "paths_ok rank None 1 (tree @ ?tail) \<and> levels_ok 1 (tree @ ?tail)"
      by (rule paths_ok_append) (use tr tl in blast)+
    then show ?thesis using out by blast
  qed
  then obtain rest where out: "out = ap_projectNode wbs pinfo e # rest"
    and p: "paths_ok rank None 1 rest" and l: "levels_ok 1 rest" by blast
  obtain j where j: "i = Suc j" using i(1) by (cases i) auto
  have jl: "j \<le> length rest" using i(2) j out by simp
  have "\<forall>m\<in>set (take j rest). h_level (ap_projectNode wbs pinfo e) < h_level m"
    using l by (auto simp: levels_ok_def dest!: in_set_takeD)
  then have "path_to (ap_projectNode wbs pinfo e # take j rest)
               = path_to (take j rest) @ [ap_projectNode wbs pinfo e]"
    by (rule path_to_base)
  then have r: "rev (path_to (take i out)) = ap_projectNode wbs pinfo e # rev (path_to (take j rest))"
    using out j by simp
  have "parent_chain rank None 1 (rev (path_to (take j rest)))"
  proof (cases "j = 0")
    case True
    then show ?thesis by (simp add: path_to_def)
  next
    case False
    then show ?thesis using p jl by (simp add: paths_ok_def)
  qed
  then show ?thesis using r by blast
qed

lemma hierarchy_path_facts:
  assumes nrc: "no_reachable_cycle rank S pinfo wbs"
    and h: "hierarchy fuel acts wbs (Some pinfo) e = Some out"
    and i: "0 < i" "i \<le> length out"
  shows "hd (path_to (take i out)) = out ! (i - 1)
       \<and> (\<exists>c. rev (path_to (take i out)) = ap_projectNode wbs pinfo e # c
               \<and> parent_chain rank None 1 c)
       \<and> distinct (map h_wbs_id (filter (\<lambda>m. h_type m = WbsT) (path_to (take i out))))"
proof (intro conjI)
  have ne: "take i out \<noteq> []" using i by auto
  have "last (take i out) = out ! (i - 1)"
    using i ne by (simp add: last_conv_nth min_def)
  then show "hd (path_to (take i out)) = out ! (i - 1)" using path_to_hd [OF ne] by simp
  from hierarchy_paths [OF nrc h i] obtain c where
    c: "rev (path_to (take i out)) = ap_projectNode wbs pinfo e # c" "parent_chain rank None 1 c"
    by blast
  then show "\<exists>c. rev (path_to (take i out)) = ap_projectNode wbs pinfo e # c
               \<and> parent_chain rank None 1 c" by blast
  have "distinct (map h_wbs_id (filter (\<lambda>m. h_type m = WbsT) c))"
    by (rule parent_chain_distinct [OF c(2)])
  then have "distinct (map h_wbs_id (filter (\<lambda>m. h_type m = WbsT) (rev (path_to (take i out)))))"
    by (simp add: c(1))
  then show "distinct (map h_wbs_id (filter (\<lambda>m. h_type m = WbsT) (path_to (take i out))))"
    by (simp add: distinct_rev rev_map [symmetric] rev_filter [symmetric] del: rev_map rev_filter)
qed

lemma hangs_reachable:
  assumes "no_reachable_cycle rank S pinfo wbs" and "ap_hangs wbs pinfo None 1 tree"
  shows "n \<in> set tree \<Longrightarrow> h_type n = WbsT \<Longrightarrow> \<exists>k. h_wbs_id n = Some k \<and> k \<in> set S"
proof (induction "h_level n" arbitrary: n rule: less_induct)
  case less
  from assms(2) less.prems obtain w where w: "w \<in> set wbs" "h_wbs_id n = Some (wbs_id w)"
    and d: "(h_level n = 1 \<and> ap_is_child pinfo None w \<and> h_parent n = Some (ap_parent_of None))
              \<or> (1 < h_level n \<and> ap_under w n tree)"
    unfolding ap_hangs_def by blast
  from d show ?case
  proof
    assume "h_level n = 1 \<and> ap_is_child pinfo None w \<and> h_parent n = Some (ap_parent_of None)"
    then show ?thesis using no_reachable_cycle_root [OF assms(1) w(1)] w(2) by simp
  next
    assume "1 < h_level n \<and> ap_under w n tree"
    then obtain k n' where k: "parent_wbs_id w = Some k" and n': "n' \<in> set tree"
      "h_type n' = WbsT" "h_wbs_id n' = Some k" "h_level n' + 1 = h_level n"
      unfolding ap_under_def by blast
    have "h_level n' < h_level n" using n'(4) by simp
    from less.hyps [OF this n'(1,2)] n'(3) have "k \<in> set S" by simp
    then show ?thesis using no_reachable_cycle_child [OF assms(1) w(1) k] w(2) by simp
  qed
qed

text \<open>
  C3, as the code has it. The builder has no cycle detection. Let \<open>S\<close> be a list of ids that
  holds the id of every root-level WBS item and of every item whose parent id is in \<open>S\<close>, and
  let some rank grow strictly from each parent id in \<open>S\<close> to the items that name it: no
  cycle of parent links can then be reached from a root-level item, though items outside
  \<open>S\<close> may still name each other as parents. On such an input the ActivitiesPage builder
  returns: from some recursion depth on it gives one and the same output. In that output

  \<^item> a WBS node is either on the first level, with the project root as its parent, and is
    then the node of the unassigned bucket or the node of a root-level WBS item; or it is the
    node of a WBS item that names a parent id \<open>k\<close>: the node carries \<open>k\<close> as its parent, a
    WBS node of the id \<open>k\<close> is in the output one level above it, and the rank of \<open>k\<close> is
    strictly smaller than the rank of the node's own id;

  \<^item> the path from the root to the node at any position of the output ends in that node,
    starts with the project node and goes on as a chain of parents from the first level
    down (the level grows by one at every step, every node names the id of the node before
    it as its parent, the rank of the WBS ids grows strictly), and no WBS id occurs twice
    among the WBS nodes of the path.

  Activities are those of the data model: their dates are \<^verbatim>\<open>null\<close> or parse.
\<close>

theorem hierarchy_terminates_without_reachable_cycle:
  assumes "no_reachable_cycle rank S pinfo wbs"
  shows "\<exists>fuel out. (\<forall>fuel' \<ge> fuel. hierarchy fuel' acts wbs (Some pinfo) e = Some out)
           \<and> (\<forall>n\<in>set out. h_type n = WbsT \<longrightarrow>
                 (h_level n = 1 \<and> h_parent n = Some ''project-root''
                    \<and> ((\<exists>U. n = ap_unassignedNode e U)
                       \<or> (\<exists>w\<in>set wbs. h_wbs_id n = Some (wbs_id w) \<and> ap_is_child pinfo None w)))
                 \<or> (\<exists>w\<in>set wbs. \<exists>k. h_wbs_id n = Some (wbs_id w) \<and> parent_wbs_id w = Some k
                        \<and> h_parent n = Some (if k = [] then ''project-root'' else k)
                        \<and> rank k < rank (wbs_id w)
                        \<and> (\<exists>n'\<in>set out. h_type n' = WbsT \<and> h_wbs_id n' = Some k
                                          \<and> h_level n' + 1 = h_level n)))
           \<and> (\<forall>i. 0 < i \<and> i \<le> length out \<longrightarrow>
                 hd (path_to (take i out)) = out ! (i - 1)
                 \<and> (\<exists>c. rev (path_to (take i out)) = ap_projectNode wbs pinfo e # c
                         \<and> parent_chain rank None 1 c)
                 \<and> distinct (map h_wbs_id (filter (\<lambda>m. h_type m = WbsT) (path_to (take i out)))))"
proof -
  obtain fuel out where fo: "\<forall>fuel' \<ge> fuel. hierarchy fuel' acts wbs (Some pinfo) e = Some out"
    using hierarchy_returns [OF assms] by blast
  then have h: "hierarchy fuel acts wbs (Some pinfo) e = Some out" by simp
  have "(h_level n = 1 \<and> h_parent n = Some ''project-root''
           \<and> ((\<exists>U. n = ap_unassignedNode e U)
              \<or> (\<exists>w\<in>set wbs. h_wbs_id n = Some (wbs_id w) \<and> ap_is_child pinfo None w)))
        \<or> (\<exists>w\<in>set wbs. \<exists>k. h_wbs_id n = Some (wbs_id w) \<and> parent_wbs_id w = Some k
               \<and> h_parent n = Some (if k = [] then ''project-root'' else k)
               \<and> rank k < rank (wbs_id w)
               \<and> (\<exists>n'\<in>set out. h_type n' = WbsT \<and> h_wbs_id n' = Some k
                                 \<and> h_level n' + 1 = h_level n))"
    if n: "n \<in> set out" and ty: "h_type n = WbsT" for n
  proof (cases "Set_has e ''project-root''")
    case False
    then show ?thesis using h n ty by (auto simp: hierarchy_collapsed)
  next
    case True
    from hierarchy_shape [OF h True] obtain tree abw where
      t: "buildWBSTree fuel wbs pinfo e None 1 (activitiesByWBS_AP acts) = Some (tree, abw)"
      and out: "out = ap_projectNode wbs pinfo e # tree
                 @ (if length (get_or_empty abw ''unassigned'') > 0
                    then ap_unassignedNode e (get_or_empty abw ''unassigned'')
                         # (if Set_has e ''unassigned''
                            then map (ap_activityNode 2 ''unassigned'') (get_or_empty abw ''unassigned'')
                            else [])
                    else [])"
      by blast
    have sub: "set tree \<subseteq> set out" unfolding out by auto
    note hg = buildWBSTree_hangs [OF t]
    consider (tree) "n \<in> set tree" | (un) "n = ap_unassignedNode e (get_or_empty abw ''unassigned'')"
      using n ty unfolding out by (auto split: if_splits)
    then show ?thesis
    proof cases
      case un
      have "\<exists>U. n = ap_unassignedNode e U" using un by (rule exI)
      moreover have "h_level n = 1 \<and> h_parent n = Some ''project-root''" using un by simp
      ultimately show ?thesis by blast
    next
      case tree
      from hg tree ty obtain w where
        w: "w \<in> set wbs" "h_wbs_id n = Some (wbs_id w)"
        and d: "(h_level n = 1 \<and> ap_is_child pinfo None w \<and> h_parent n = Some (ap_parent_of None))
            \<or> (1 < h_level n \<and> ap_under w n tree)"
        unfolding ap_hangs_def by blast
      from d show ?thesis
      proof
        assume a: "h_level n = 1 \<and> ap_is_child pinfo None w \<and> h_parent n = Some (ap_parent_of None)"
        then have "h_level n = 1 \<and> h_parent n = Some ''project-root''"
          by (simp add: ap_parent_of_def)
        moreover have "\<exists>w\<in>set wbs. h_wbs_id n = Some (wbs_id w) \<and> ap_is_child pinfo None w"
          using w a by blast
        ultimately show ?thesis by blast
      next
        assume "1 < h_level n \<and> ap_under w n tree"
        then obtain k n' where k: "parent_wbs_id w = Some k"
          and par: "h_parent n = Some (if k = [] then ''project-root'' else k)"
          and n': "n' \<in> set tree" "h_type n' = WbsT" "h_wbs_id n' = Some k"
            "h_level n' + 1 = h_level n"
          unfolding ap_under_def by blast
        have "k \<in> set S" using hangs_reachable [OF assms hg n'(1,2)] n'(3) by simp
        then have "rank k < rank (wbs_id w)" using no_reachable_cycle_child [OF assms w(1) k] by simp
        moreover have "n' \<in> set out" using n'(1) sub by blast
        ultimately show ?thesis using n'(2,3,4) w k par by blast
      qed
    qed
  qed
  then have nodes: "\<forall>n\<in>set out. h_type n = WbsT \<longrightarrow>
       (h_level n = 1 \<and> h_parent n = Some ''project-root''
           \<and> ((\<exists>U. n = ap_unassignedNode e U)
              \<or> (\<exists>w\<in>set wbs. h_wbs_id n = Some (wbs_id w) \<and> ap_is_child pinfo None w)))
        \<or> (\<exists>w\<in>set wbs. \<exists>k. h_wbs_id n = Some (wbs_id w) \<and> parent_wbs_id w = Some k
               \<and> h_parent n = Some (if k = [] then ''project-root'' else k)
               \<and> rank k < rank (wbs_id w)
               \<and> (\<exists>n'\<in>set out. h_type n' = WbsT \<and> h_wbs_id n' = Some k
                                 \<and> h_level n' + 1 = h_level n))"
    by simp
  have paths: "\<forall>i. 0 < i \<and> i \<le> length out \<longrightarrow>
       hd (path_to (take i out)) = out ! (i - 1)
       \<and> (\<exists>c. rev (path_to (take i out)) = ap_projectNode wbs pinfo e # c
               \<and> parent_chain rank None 1 c)
       \<and> distinct (map h_wbs_id (filter (\<lambda>m. h_type m = WbsT) (path_to (take i out))))"
  proof (intro allI impI)
    fix i assume "0 < i \<and> i \<le> length out"
    then have i: "0 < i" "i \<le> length out" by simp_all
    show "hd (path_to (take i out)) = out ! (i - 1)
       \<and> (\<exists>c. rev (path_to (take i out)) = ap_projectNode wbs pinfo e # c
               \<and> parent_chain rank None 1 c)
       \<and> distinct (map h_wbs_id (filter (\<lambda>m. h_type m = WbsT) (path_to (take i out))))"
      by (rule hierarchy_path_facts [OF assms h i])
  qed
  show ?thesis
    by (rule exI [where x = fuel], rule exI [where x = out])
       (rule conjI [OF fo conjI [OF nodes paths]])
qed

text \<open>
  Two inputs: the items \<open>A\<close> and \<open>B\<close> that name each other as parents, neither of them
  root-level (\<open>S\<close> is empty); and a root item \<open>A\<close> with the child \<open>AB\<close>, ranked by the length
  of the ids.
\<close>

theorem hierarchy_terminates_without_reachable_cycle_witness:
  "no_reachable_cycle length [] ex_project [ex_wbs ''A'' (Some ''B'') 1, ex_wbs ''B'' (Some ''A'') 1]
   \<and> no_reachable_cycle length [''A'', ''AB''] ex_project
        [ex_wbs ''A'' None 0, ex_wbs ''AB'' (Some ''A'') 1]
   \<and> (\<exists>fuel out. hierarchy fuel [] [ex_wbs ''A'' (Some ''B'') 1, ex_wbs ''B'' (Some ''A'') 1]
                    (Some ex_project) [''project-root''] = Some out)
   \<and> (\<exists>fuel out. hierarchy fuel [] [ex_wbs ''A'' None 0, ex_wbs ''AB'' (Some ''A'') 1]
                    (Some ex_project) [''project-root''] = Some out)"
proof -
  have h1: "no_reachable_cycle length [] ex_project
              [ex_wbs ''A'' (Some ''B'') 1, ex_wbs ''B'' (Some ''A'') 1]"
    by (simp add: no_reachable_cycle_def ex_wbs_def ap_is_child_def falsy_parent_def
          ex_project_def)
  have h2: "no_reachable_cycle length [''A'', ''AB''] ex_project
              [ex_wbs ''A'' None 0, ex_wbs ''AB'' (Some ''A'') 1]"
    by (simp add: no_reachable_cycle_def ex_wbs_def)
  have e1: "\<exists>fuel out. hierarchy fuel [] [ex_wbs ''A'' (Some ''B'') 1, ex_wbs ''B'' (Some ''A'') 1]
                    (Some ex_project) [''project-root''] = Some out"
    using hierarchy_terminates_without_reachable_cycle [OF h1, of "[]" "[''project-root'']"]
  proof (elim exE conjE)
    fix fuel out
    assume "\<forall>fuel' \<ge> fuel. hierarchy fuel' [] [ex_wbs ''A'' (Some ''B'') 1, ex_wbs ''B'' (Some ''A'') 1]
                    (Some ex_project) [''project-root''] = Some out"
    then have "hierarchy fuel [] [ex_wbs ''A'' (Some ''B'') 1, ex_wbs ''B'' (Some ''A'') 1]
                    (Some ex_project) [''project-root''] = Some out" by simp
    then show ?thesis by blast
  qed
  have e2: "\<exists>fuel out. hierarchy fuel [] [ex_wbs ''A'' None 0, ex_wbs ''AB'' (Some ''A'') 1]
                    (Some ex_project) [''project-root''] = Some out"
    using hierarchy_terminates_without_reachable_cycle [OF h2, of "[]" "[''project-root'']"]
  proof (elim exE conjE)
    fix fuel out
    assume "\<forall>fuel' \<ge> fuel. hierarchy fuel' [] [ex_wbs ''A'' None 0, ex_wbs ''AB'' (Some ''A'') 1]
                    (Some ex_project) [''project-root''] = Some out"
    then have "hierarchy fuel [] [ex_wbs ''A'' None 0, ex_wbs ''AB'' (Some ''A'') 1]
                    (Some ex_project) [''project-root''] = Some out" by simp
    then show ?thesis by blast
  qed
  show ?thesis using h1 h2 e1 e2 by simp
qed

text \<open>
  The claim as stated fails on a cycle that a root-level item reaches: item \<open>1\<close> names \<open>B\<close>
  as its parent and item \<open>B\<close> names \<open>1\<close>, which is also the project id, so \<open>B\<close> is a
  root-level item. getAllDescendantActivities then calls itself for \<open>B\<close>, \<open>1\<close>, \<open>B\<close>, ...
  at every depth, and the builder returns no output.
\<close>

lemma cyclic_descendants_diverge:
  "getAllDescendantActivities f m [ex_wbs ''1'' (Some ''B'') 1, ex_wbs ''B'' (Some ''1'') 1] ''1'' = None
   \<and> getAllDescendantActivities f m [ex_wbs ''1'' (Some ''B'') 1, ex_wbs ''B'' (Some ''1'') 1] ''B'' = None"
  by (induction f) (simp_all add: ex_wbs_def Let_def)

lemma cyclic_hierarchy_diverges:
  "hierarchy f [] [ex_wbs ''1'' (Some ''B'') 1, ex_wbs ''B'' (Some ''1'') 1] (Some ex_project)
     [''project-root''] = None"
proof (cases f)
  case 0
  then show ?thesis by (simp add: hierarchy_def Set_has_def)
next
  case (Suc g)
  then show ?thesis
    using cyclic_descendants_diverge [of g]
    by (simp add: hierarchy_def Set_has_def Let_def ap_is_child_def ex_project_def falsy_parent_def js_sort_def buildWBSTree_item_def ex_wbs_def)
qed

theorem cyclic_hierarchy_counterexample:
  "\<not> (\<exists>fuel out. hierarchy fuel [] [ex_wbs ''1'' (Some ''B'') 1, ex_wbs ''B'' (Some ''1'') 1]
                    (Some ex_project) [''project-root''] = Some out)"
  by (simp add: cyclic_hierarchy_diverges)


subsection \<open>The project root node\<close>

lemma enh_nodes_sel [simp]:
  "t_type (enh_wbsNode e l w hc wa ad r) = WbsT"
  "t_type (enh_activityNode l a) = ActivityT"
  "t_type (enh_projectNode acts e ps sch) = ProjectT"
  "t_id (enh_projectNode acts e ps sch) = ''project-root''"
  "t_children (enh_projectNode acts e ps sch) = 0"
  "t_activityCount (enh_projectNode acts e ps sch) = Some (length acts)"
  by (simp_all add: enh_wbsNode_def enh_activityNode_def enh_projectNode_def)

lemma enh_buildWBSNodes_types:
  assumes "enh_buildWBSNodes f wbs e p l m = Some (out, m')"
  shows "list_all (\<lambda>n. t_type n \<noteq> ProjectT) out"
  using assms
proof (induction f arbitrary: p l m out m')
  case 0
  then show ?case by simp
next
  case (Suc f)
  let ?xs = "js_sort enh_wbs_cmp (filter (enh_is_child p) wbs)"
  let ?body = "enh_buildWBSNodes_item (enh_buildWBSNodes f wbs e)
              (\<lambda>abw. getAllDescendantActivities f abw wbs) wbs e l"
  have fe: "forEach_st ?body ?xs m = Some (out, m')"
    using Suc.prems by (simp add: Let_def)
  have step: "list_all (\<lambda>n. t_type n \<noteq> ProjectT) ou" if b: "?body x t = Some (ou, t')" for x t ou t'
  proof (cases "Set_has e (wbs_id x) \<and> list_ex (\<lambda>w. parent_wbs_id w = Some (wbs_id x)) wbs")
    case True
    with b obtain sub t1 nd acts where
      "enh_buildWBSNodes f wbs e (Some (wbs_id x)) (l + 1) t = Some (sub, t1)"
      "ou = nd # sub @ acts" "t_type nd = WbsT" "list_all (\<lambda>n. t_type n = ActivityT) acts"
      by (auto simp: enh_buildWBSNodes_item_def Let_def list_all_iff split: option.splits if_splits)
    then show ?thesis using Suc.IH by (auto simp: list_all_iff)
  next
    case False
    with b show ?thesis
      by (auto simp: enh_buildWBSNodes_item_def Let_def list_all_iff split: option.splits if_splits)
  qed
  have "True \<and> (\<exists>blocks. out = concat blocks
            \<and> list_all2 (\<lambda>x. list_all (\<lambda>n. t_type n \<noteq> ProjectT)) ?xs blocks)"
  proof (rule forEach_st_blocks[where I = "\<lambda>_. True"
            and P = "\<lambda>x. list_all (\<lambda>n. t_type n \<noteq> ProjectT)", OF fe])
    show True by simp
  next
    fix x t ou t'
    assume "?body x t = Some (ou, t')"
    then show "True \<and> list_all (\<lambda>n. t_type n \<noteq> ProjectT) ou" using step by blast
  qed
  then obtain blocks where out: "out = concat blocks"
    and bl: "list_all2 (\<lambda>x. list_all (\<lambda>n. t_type n \<noteq> ProjectT)) ?xs blocks"
    by auto
  have "\<And>b. b \<in> set blocks \<Longrightarrow> list_all (\<lambda>n. t_type n \<noteq> ProjectT) b"
    using bl by (metis in_set_conv_nth list_all2_conv_all_nth)
  then show ?case unfolding out by (auto simp: list_all_iff)
qed

lemma ap_node_ok_not_project: "ap_node_ok wbs e len n \<Longrightarrow> h_type n \<noteq> ProjectT"
  by (auto simp: ap_node_ok_def)

text \<open>
  C6, as the code has it. In a non-empty output of the ActivitiesPage builder the first node
  is the project root, its child count is the number of WBS items of the input, no later node
  is a project node, and nothing follows it unless it is expanded. In a non-empty output of
  the EnhancedActivitiesPage builder the first node is the project root, nothing follows it
  unless it is expanded, and it carries no count of WBS items: its children array is empty
  and its activityCount is the number of activities.
\<close>

theorem project_root_first:
  "(hierarchy fuel acts wbs pinfo e = Some (n # rest) \<longrightarrow>
      h_id n = ''project-root'' \<and> h_type n = ProjectT \<and> h_children n = Some (length wbs)
      \<and> list_all (\<lambda>r. h_type r \<noteq> ProjectT) rest
      \<and> (\<not> Set_has e ''project-root'' \<longrightarrow> rest = []))
   \<and> (treeData fuel acts wbs e summary schedule = Some (tn # trest) \<longrightarrow>
      t_id tn = ''project-root'' \<and> t_type tn = ProjectT
      \<and> t_children tn = 0 \<and> t_activityCount tn = Some (length acts)
      \<and> list_all (\<lambda>r. t_type r \<noteq> ProjectT) trest
      \<and> (\<not> Set_has e ''project-root'' \<longrightarrow> trest = []))"
proof (intro conjI impI)
  assume h: "hierarchy fuel acts wbs pinfo e = Some (n # rest)"
  then obtain pi where pi: "pinfo = Some pi" by (cases pinfo) (auto simp: hierarchy_def)
  have "n = ap_projectNode wbs pi e \<and> list_all (\<lambda>r. h_type r \<noteq> ProjectT) rest
        \<and> (\<not> Set_has e ''project-root'' \<longrightarrow> rest = [])"
  proof (cases "Set_has e ''project-root''")
    case False
    then show ?thesis using h pi by (simp add: hierarchy_collapsed)
  next
    case True
    from hierarchy_shape [OF h [unfolded pi] True] obtain tree abw where
      t: "buildWBSTree fuel wbs pi e None 1 (activitiesByWBS_AP acts) = Some (tree, abw)"
      and out: "n # rest = ap_projectNode wbs pi e # tree
                 @ (if length (get_or_empty abw ''unassigned'') > 0
                    then ap_unassignedNode e (get_or_empty abw ''unassigned'')
                         # (if Set_has e ''unassigned''
                            then map (ap_activityNode 2 ''unassigned'') (get_or_empty abw ''unassigned'')
                            else [])
                    else [])"
      by blast
    have "list_all (\<lambda>r. h_type r \<noteq> ProjectT) tree"
      using buildWBSTree_props [OF t] ap_node_ok_not_project by (auto simp: list_all_iff)
    then show ?thesis using out True by (auto simp: list_all_iff)
  qed
  then show "h_id n = ''project-root''" "h_type n = ProjectT" "h_children n = Some (length wbs)"
    "list_all (\<lambda>r. h_type r \<noteq> ProjectT) rest" "\<not> Set_has e ''project-root'' \<Longrightarrow> rest = []"
    by simp_all
next
  assume h: "treeData fuel acts wbs e summary schedule = Some (tn # trest)"
  then obtain ps where ps: "summary = Some ps"
    by (cases summary) (auto simp: treeData_def split: if_splits)
  have "tn = enh_projectNode acts e ps schedule \<and> list_all (\<lambda>r. t_type r \<noteq> ProjectT) trest
        \<and> (\<not> Set_has e ''project-root'' \<longrightarrow> trest = [])"
  proof (cases "Set_has e ''project-root''")
    case False
    then show ?thesis using h ps by (auto simp: treeData_def Let_def split: if_splits)
  next
    case True
    then obtain tree abw where
      t: "enh_buildWBSNodes fuel wbs e None 1 (activitiesByWBS_raw acts) = Some (tree, abw)"
      and out: "tn # trest = enh_projectNode acts e ps schedule # tree"
      using h ps by (auto simp: treeData_def Let_def split: if_splits option.splits)
    then show ?thesis using enh_buildWBSNodes_types [OF t] True by simp
  qed
  then show "t_id tn = ''project-root''" "t_type tn = ProjectT" "t_children tn = 0"
    "t_activityCount tn = Some (length acts)"
    "list_all (\<lambda>r. t_type r \<noteq> ProjectT) trest" "\<not> Set_has e ''project-root'' \<Longrightarrow> trest = []"
    by simp_all
qed

theorem project_root_first_witness:
  "hierarchy 1 [ex_activity ''T1'' ''A'' 1 0 None None, ex_activity ''T2'' ''A'' 1 0 None None]
        [ex_wbs ''A'' None 0] (Some ex_project) []
     = Some [ap_projectNode [ex_wbs ''A'' None 0] ex_project []]
   \<and> h_children (ap_projectNode [ex_wbs ''A'' None 0] ex_project []) = Some 1
   \<and> treeData 1 [ex_activity ''T1'' ''A'' 1 0 None None, ex_activity ''T2'' ''A'' 1 0 None None]
        [ex_wbs ''A'' None 0] [] (Some ex_summary) ex_schedule
     = Some [enh_projectNode [ex_activity ''T1'' ''A'' 1 0 None None, ex_activity ''T2'' ''A'' 1 0 None None]
               [] ex_summary ex_schedule]
   \<and> t_activityCount (enh_projectNode [ex_activity ''T1'' ''A'' 1 0 None None,
               ex_activity ''T2'' ''A'' 1 0 None None] [] ex_summary ex_schedule) = Some 2"
proof -
  let ?acts = "[ex_activity ''T1'' ''A'' 1 0 None None, ex_activity ''T2'' ''A'' 1 0 None None]"
  have h1: "hierarchy 1 ?acts [ex_wbs ''A'' None 0] (Some ex_project) []
     = Some [ap_projectNode [ex_wbs ''A'' None 0] ex_project []]"
    by (simp add: hierarchy_def Set_has_def Let_def)
  have h2: "treeData 1 ?acts [ex_wbs ''A'' None 0] [] (Some ex_summary) ex_schedule
     = Some [enh_projectNode ?acts [] ex_summary ex_schedule]"
    by (simp add: treeData_def Set_has_def Let_def)
  note t = project_root_first [where fuel = 1 and acts = ?acts and wbs = "[ex_wbs ''A'' None 0]"
        and pinfo = "Some ex_project" and e = "[]"
        and n = "ap_projectNode [ex_wbs ''A'' None 0] ex_project []" and rest = "[]"
        and summary = "Some ex_summary" and schedule = ex_schedule
        and tn = "enh_projectNode ?acts [] ex_summary ex_schedule" and trest = "[]"]
  have "h_children (ap_projectNode [ex_wbs ''A'' None 0] ex_project []) = Some 1"
    using t h1 by simp
  moreover have "t_activityCount (enh_projectNode ?acts [] ex_summary ex_schedule) = Some 2"
    using t h2 by simp
  ultimately show ?thesis using h1 h2 by simp
qed

text \<open>
  The claim as stated fails for EnhancedActivitiesPage: with one WBS item and two activities
  the root node has an empty children array and activityCount 2, neither of which is 1.
\<close>

theorem project_root_child_count_counterexample:
  "treeData 1 [ex_activity ''T1'' ''A'' 1 0 None None, ex_activity ''T2'' ''A'' 1 0 None None]
        [ex_wbs ''A'' None 0] [] (Some ex_summary) ex_schedule
     = Some [enh_projectNode [ex_activity ''T1'' ''A'' 1 0 None None, ex_activity ''T2'' ''A'' 1 0 None None]
               [] ex_summary ex_schedule]
   \<and> t_children (enh_projectNode [ex_activity ''T1'' ''A'' 1 0 None None, ex_activity ''T2'' ''A'' 1 0 None None]
               [] ex_summary ex_schedule) \<noteq> length [ex_wbs ''A'' None 0]
   \<and> t_activityCount (enh_projectNode [ex_activity ''T1'' ''A'' 1 0 None None, ex_activity ''T2'' ''A'' 1 0 None None]
               [] ex_summary ex_schedule) \<noteq> Some (length [ex_wbs ''A'' None 0])"
  by (simp add: treeData_def Set_has_def Let_def)

subsection \<open>The unassigned bucket\<close>

lemma get_or_empty_map_push:
  "get_or_empty (map_push m k a) k' = (if k' = k then get_or_empty m k @ [a] else get_or_empty m k')"
  by (simp add: get_or_empty_def map_push_def)

lemma get_or_empty_grouped:
  "get_or_empty (foldl (\<lambda>m a. map_push m (key a) a) m0 acts) k
     = get_or_empty m0 k @ filter (\<lambda>a. key a = k) acts"
  by (induction acts arbitrary: m0) (auto simp: get_or_empty_map_push)

lemma get_or_empty_AP:
  "get_or_empty (activitiesByWBS_AP acts) k = filter (\<lambda>a. ap_wbsId a = k) acts"
  by (simp add: activitiesByWBS_AP_def get_or_empty_grouped) (simp add: get_or_empty_def)


lemma ap_activityNode_inj: "ap_activityNode l k a = ap_activityNode l k b \<Longrightarrow> a = b"
  by (simp add: ap_activityNode_def)

lemma count_list_map_inj:
  assumes "\<And>x y. f x = f y \<Longrightarrow> x = y"
  shows "count_list (map f xs) (f a) = count_list xs a"
  using assms by (induction xs) auto

lemma count_list_0: "x \<notin> set xs \<Longrightarrow> count_list xs x = 0"
  by (induction xs) auto

text \<open>
  What the unassigned bucket does hold: when the project root and the unassigned node are
  expanded, the output ends with the unassigned node followed by the nodes of the activities
  whose \<^verbatim>\<open>wbs_id\<close> is empty (or is the word ``unassigned''), each as often as the input
  has it; when no WBS item is itself called ``unassigned'', such an activity node occurs
  nowhere else in the output.
\<close>

theorem unassigned_bucket_complete:
  assumes "hierarchy fuel acts wbs (Some pinfo) e = Some out"
    and "Set_has e ''project-root''" and "Set_has e ''unassigned''"
    and "a \<in> set acts" and "act_wbs_id a = []"
  shows "(\<exists>pre U. out = pre @ ap_unassignedNode e U # map (ap_activityNode 2 ''unassigned'') U
           \<and> mset U = mset (filter (\<lambda>b. ap_wbsId b = ''unassigned'') acts)
           \<and> count_list U a = count_list acts a)
       \<and> (list_all (\<lambda>w. wbs_id w \<noteq> ''unassigned'') wbs
            \<longrightarrow> count_list out (ap_activityNode 2 ''unassigned'' a) = count_list acts a)"
proof -
  from hierarchy_shape [OF assms(1,2)] obtain tree abw where
    t: "buildWBSTree fuel wbs pinfo e None 1 (activitiesByWBS_AP acts) = Some (tree, abw)"
    and out0: "out = ap_projectNode wbs pinfo e # tree
               @ (if length (get_or_empty abw ''unassigned'') > 0
                  then ap_unassignedNode e (get_or_empty abw ''unassigned'')
                       # (if Set_has e ''unassigned''
                          then map (ap_activityNode 2 ''unassigned'') (get_or_empty abw ''unassigned'')
                          else [])
                  else [])"
    by blast
  define U where "U = get_or_empty abw ''unassigned''"
  define pre where "pre = ap_projectNode wbs pinfo e # tree"
  note props = buildWBSTree_props [OF t]
  have be: "bucket_eq (activitiesByWBS_AP acts) abw" using props by simp
  have mU: "mset U = mset (filter (\<lambda>b. ap_wbsId b = ''unassigned'') acts)"
    using be unfolding U_def bucket_eq_def by (simp add: get_or_empty_AP)
  have key: "ap_wbsId a = ''unassigned''" using assms(5) by (simp add: ap_wbsId_def)
  have cU: "count_list U a = count_list acts a"
  proof -
    have "count_list U a = count (mset U) a" by (simp add: count_mset)
    also have "\<dots> = count (mset acts) a" using mU key by simp
    finally show ?thesis by (simp add: count_mset)
  qed
  have "set U = set (filter (\<lambda>b. ap_wbsId b = ''unassigned'') acts)"
    using mU by (metis set_mset_mset)
  then have "a \<in> set U" using assms(4) key by simp
  then have ne: "length U > 0" by (cases U) auto
  have out: "out = pre @ ap_unassignedNode e U # map (ap_activityNode 2 ''unassigned'') U"
    using out0 ne assms(3) unfolding U_def pre_def by simp
  have whole: "count_list out (ap_activityNode 2 ''unassigned'' a) = count_list acts a"
    if nu: "list_all (\<lambda>w. wbs_id w \<noteq> ''unassigned'') wbs"
  proof -
    have "ap_activityNode 2 ''unassigned'' a \<notin> set tree"
    proof
      assume "ap_activityNode 2 ''unassigned'' a \<in> set tree"
      then have "ap_node_ok wbs e (\<lambda>k. length (get_or_empty (activitiesByWBS_AP acts) k))
                   (ap_activityNode 2 ''unassigned'' a)"
        using props by (simp add: list_all_iff)
      then show False using nu by (auto simp: ap_node_ok_def list_all_iff)
    qed
    moreover have "ap_activityNode 2 ''unassigned'' a \<noteq> ap_projectNode wbs pinfo e"
      by (metis NodeType.distinct(3) ap_activityNode_sel(1) ap_projectNode_sel(1))
    moreover have "ap_activityNode 2 ''unassigned'' a \<noteq> ap_unassignedNode e U"
      by (metis NodeType.distinct(5) ap_activityNode_sel(1) ap_unassignedNode_sel(1))
    ultimately have "ap_activityNode 2 ''unassigned'' a \<notin> set (pre @ [ap_unassignedNode e U])"
      unfolding pre_def by simp
    then have "count_list (pre @ [ap_unassignedNode e U]) (ap_activityNode 2 ''unassigned'' a) = 0"
      by (rule count_list_0)
    moreover have "count_list (map (ap_activityNode 2 ''unassigned'') U) (ap_activityNode 2 ''unassigned'' a)
                     = count_list U a"
      by (rule count_list_map_inj) (rule ap_activityNode_inj)
    moreover have "out = (pre @ [ap_unassignedNode e U]) @ map (ap_activityNode 2 ''unassigned'') U"
      using out by simp
    ultimately show ?thesis using cU by (simp only: count_list_append)
  qed
  show ?thesis using out mU cU whole by blast
qed

theorem unassigned_bucket_complete_witness:
  "hierarchy 1 [ex_unassigned] [] (Some ex_project) [''project-root'', ''unassigned'']
     = Some [ap_projectNode [] ex_project [''project-root'', ''unassigned''],
             ap_unassignedNode [''project-root'', ''unassigned''] [ex_unassigned],
             ap_activityNode 2 ''unassigned'' ex_unassigned]
   \<and> Set_has [''project-root'', ''unassigned''] ''project-root''
   \<and> Set_has [''project-root'', ''unassigned''] ''unassigned''
   \<and> ex_unassigned \<in> set [ex_unassigned]
   \<and> act_wbs_id ex_unassigned = []
   \<and> count_list [ap_projectNode [] ex_project [''project-root'', ''unassigned''],
             ap_unassignedNode [''project-root'', ''unassigned''] [ex_unassigned],
             ap_activityNode 2 ''unassigned'' ex_unassigned]
        (ap_activityNode 2 ''unassigned'' ex_unassigned) = 1"
proof -
  let ?e = "[''project-root'', ''unassigned'']"
  have h1: "hierarchy 1 [ex_unassigned] [] (Some ex_project) ?e
     = Some [ap_projectNode [] ex_project ?e, ap_unassignedNode ?e [ex_unassigned],
             ap_activityNode 2 ''unassigned'' ex_unassigned]"
    by (simp add: hierarchy_def Set_has_def Let_def activitiesByWBS_AP_def ap_wbsId_def
          ex_unassigned_def map_push_def get_or_empty_def js_sort_def)
  have h2: "Set_has ?e ''project-root''" and h3: "Set_has ?e ''unassigned''"
    by (simp_all add: Set_has_def)
  have h4: "ex_unassigned \<in> set [ex_unassigned]" by simp
  have h5: "act_wbs_id ex_unassigned = []" by (simp add: ex_unassigned_def)
  from unassigned_bucket_complete [OF h1 h2 h3 h4 h5, THEN conjunct2]
  have "list_all (\<lambda>w. wbs_id w \<noteq> ''unassigned'') ([] :: WBSItem list)
        \<longrightarrow> count_list [ap_projectNode [] ex_project ?e, ap_unassignedNode ?e [ex_unassigned],
             ap_activityNode 2 ''unassigned'' ex_unassigned]
        (ap_activityNode 2 ''unassigned'' ex_unassigned) = count_list [ex_unassigned] ex_unassigned" .
  then have "count_list [ap_projectNode [] ex_project ?e, ap_unassignedNode ?e [ex_unassigned],
             ap_activityNode 2 ''unassigned'' ex_unassigned]
        (ap_activityNode 2 ''unassigned'' ex_unassigned) = count_list [ex_unassigned] ex_unassigned"
    by (simp only: list.pred_inject simp_thms)
  also have "count_list [ex_unassigned] ex_unassigned = 1" by simp
  finally show ?thesis using h1 h2 h3 h4 h5 by blast
qed

text \<open>
  C4, at a failing input: an activity whose \<^verbatim>\<open>wbs_id\<close> is \<open>W99\<close> while the only WBS item is
  \<open>W1\<close>. The grouping files it under the key \<open>W99\<close>, which no WBS node ever looks up, and
  the unassigned bucket holds only activities with an empty \<^verbatim>\<open>wbs_id\<close>: with every node
  expanded the output is the project root and the node of \<open>W1\<close>, and the activity is in
  neither place.
\<close>

theorem unresolvable_wbs_id_dropped:
  "hierarchy 2 [ex_activity ''T1'' ''W99'' 1 0 None None] [ex_wbs ''W1'' None 0] (Some ex_project)
       [''project-root'', ''unassigned'', ''W1'', ''W99'']
   = Some [ap_projectNode [ex_wbs ''W1'' None 0] ex_project
             [''project-root'', ''unassigned'', ''W1'', ''W99''],
           ap_wbsNode [''project-root'', ''unassigned'', ''W1'', ''W99''] None 1
             (ex_wbs ''W1'' None 0) [] (calculateWBSStats [])]"
  by (simp add: hierarchy_def activitiesByWBS_AP_def ap_wbsId_def map_push_def get_or_empty_def
        Let_def Set_has_def numeral_2_eq_2 ex_wbs_def js_sort_def ap_is_child_def falsy_parent_def
        sort_in_place_def buildWBSTree_item_def ex_project_def)

subsection \<open>Expansion gating\<close>

lemma gantt_nodes_sel [simp]:
  "g_type (gantt_wbsNode e l w d) = WbsT"
  "g_wbs_code (gantt_wbsNode e l w d) = Some (wbs_id w)"
  "g_activityCount (gantt_wbsNode e l w d) = Some (length d)"
  "g_isExpanded (gantt_wbsNode e l w d) = Set_has e (wbs_id w)"
  "g_level (gantt_wbsNode e l w d) = l"
  "g_id (gantt_wbsNode e l w d) = ''wbs-'' @ wbs_id w"
  "g_type (gantt_activityNode l a) = ActivityT"
  "g_wbs_code (gantt_activityNode l a) = Some (act_wbs_id a)"
  "g_level (gantt_activityNode l a) = l"
  by (simp_all add: gantt_wbsNode_def gantt_activityNode_def Let_def)





























end
